theory Spec2Isabelle
  imports Main "HOL-Library.Word"
begin

section \<open>Data model of klock.c\<close>

text \<open>
  The two node lists of the resource allocation graph are append-only until
  \<open>cleanup\<close>, so a node pointer is modelled as the position of the node in
  its list and \<open>NULL\<close> as \<open>None\<close>. The \<open>next\<close> field of a node is the list
  structure itself. A thread id is the \<open>int\<close> that \<open>lock\<close> keeps of
  \<open>pthread_self()\<close>; a lock is the address of its \<open>SmartLock\<close>.
  \<open>cleanup\<close> frees both lists and is the last call of a program; the
  model ends before it.
\<close>

type_synonym tid_t = "32 word"

text \<open>
  Modelled from the spec: the declaration of \<open>SmartLock\<close> (\<open>klock.h\<close>) is
  not among the sources. A lock is the address of its \<open>SmartLock\<close>; the one
  field that the code uses, \<open>mutex\<close>, is the private binary exclusion
  primitive of the resource and is kept, for all locks, in \<open>mutex_owner\<close>
  below.
\<close>

type_synonym lock_ptr = nat

record thread_t =
  t_request :: "nat option"
  t_tid :: tid_t
  t_travelled :: bool

record resource_t =
  r_assignment :: "nat option"
  r_lock :: lock_ptr
  r_travelled :: bool

text \<open>
  The globals of the file, together with the \<open>pthread_mutex_t\<close> inside every
  \<open>SmartLock\<close> (its owner, if locked). A semaphore is its counter; before
  \<open>sem_init\<close> the two semaphores are zero-filled statics, taken as counters
  at 0, on which a wait does not return. A wait that cannot pass in the
  current state is the result \<open>Blocked\<close>.
\<close>

record state =
  threads :: "thread_t list"
  resources :: "resource_t list"
  firstRun :: bool
  assign_mutex :: nat
  assign_mutexRw :: nat
  assign_readers :: int
  mutex_owner :: "lock_ptr \<Rightarrow> tid_t option"

text \<open>
  What stops a call from returning: a dereference of \<open>NULL\<close>, a pointer that
  is not a node of the graph, or a wait that the calling thread cannot pass
  in the current state.
\<close>

datatype fault = NullDeref | WildPointer | Blocked

fun bnd :: "fault + 'a \<Rightarrow> ('a \<Rightarrow> fault + 'b) \<Rightarrow> fault + 'b" where
  "bnd (Inl e) f = Inl e"
| "bnd (Inr x) f = f x"

definition initial :: state where
  "initial = \<lparr>threads = [], resources = [], firstRun = True,
     assign_mutex = 0, assign_mutexRw = 0, assign_readers = 0,
     mutex_owner = (\<lambda>_. None)\<rparr>"

section \<open>Semaphores and mutexes\<close>

definition sem_wait_mutex :: "state \<Rightarrow> fault + state" where
  "sem_wait_mutex s =
     (if assign_mutex s = 0 then Inl Blocked
      else Inr (s\<lparr>assign_mutex := assign_mutex s - 1\<rparr>))"

definition sem_post_mutex :: "state \<Rightarrow> state" where
  "sem_post_mutex s = s\<lparr>assign_mutex := assign_mutex s + 1\<rparr>"

definition sem_wait_mutexRw :: "state \<Rightarrow> fault + state" where
  "sem_wait_mutexRw s =
     (if assign_mutexRw s = 0 then Inl Blocked
      else Inr (s\<lparr>assign_mutexRw := assign_mutexRw s - 1\<rparr>))"

definition sem_post_mutexRw :: "state \<Rightarrow> state" where
  "sem_post_mutexRw s = s\<lparr>assign_mutexRw := assign_mutexRw s + 1\<rparr>"

definition pthread_mutex_init :: "lock_ptr \<Rightarrow> state \<Rightarrow> state" where
  "pthread_mutex_init l s = s\<lparr>mutex_owner := (mutex_owner s)(l := None)\<rparr>"

definition pthread_mutex_lock :: "tid_t \<Rightarrow> lock_ptr \<Rightarrow> state \<Rightarrow> fault + state" where
  "pthread_mutex_lock tid l s =
     (case mutex_owner s l of
        Some _ \<Rightarrow> Inl Blocked
      | None \<Rightarrow> Inr (s\<lparr>mutex_owner := (mutex_owner s)(l := Some tid)\<rparr>))"

definition pthread_mutex_unlock :: "lock_ptr \<Rightarrow> state \<Rightarrow> state" where
  "pthread_mutex_unlock l s = s\<lparr>mutex_owner := (mutex_owner s)(l := None)\<rparr>"

section \<open>Graph synchronization\<close>

definition rag_readerWait :: "state \<Rightarrow> fault + state" where
  "rag_readerWait s =
     bnd (sem_wait_mutex s) (\<lambda>s1.
       let s2 = s1\<lparr>assign_readers := assign_readers s1 + 1\<rparr> in
       bnd (if assign_readers s2 = 1 then sem_wait_mutexRw s2 else Inr s2) (\<lambda>s3.
         Inr (sem_post_mutex s3)))"

definition rag_readerSignal :: "state \<Rightarrow> fault + state" where
  "rag_readerSignal s =
     bnd (sem_wait_mutex s) (\<lambda>s1.
       let s2 = s1\<lparr>assign_readers := assign_readers s1 - 1\<rparr>;
           s3 = (if assign_readers s2 = 0 then sem_post_mutexRw s2 else s2)
       in Inr (sem_post_mutex s3))"

definition rag_writerWait :: "state \<Rightarrow> fault + state" where
  "rag_writerWait s = sem_wait_mutex s"

definition rag_writerSignal :: "state \<Rightarrow> state" where
  "rag_writerSignal s = sem_post_mutex s"

section \<open>Graph store\<close>

definition rag_createResource :: resource_t where
  "rag_createResource = \<lparr>r_assignment = None, r_lock = 0, r_travelled = False\<rparr>"

definition rag_createThread :: thread_t where
  "rag_createThread = \<lparr>t_request = None, t_tid = 0, t_travelled = False\<rparr>"

text \<open>The walk to the last node of a list, where the new node is linked.\<close>

fun link_last :: "'a list \<Rightarrow> 'a \<Rightarrow> 'a list" where
  "link_last [] n = [n]"
| "link_last (x # xs) n = x # link_last xs n"

definition rag_addResource :: "lock_ptr \<Rightarrow> state \<Rightarrow> fault + state" where
  "rag_addResource l s =
     (let newResource = rag_createResource in
      bnd (rag_writerWait s) (\<lambda>s1.
        let s2 = s1\<lparr>resources := link_last (resources s1) (newResource\<lparr>r_lock := l\<rparr>)\<rparr>
        in Inr (rag_writerSignal s2)))"

definition rag_addThread :: "tid_t \<Rightarrow> state \<Rightarrow> fault + state" where
  "rag_addThread tid s =
     (let newThread = rag_createThread in
      bnd (rag_writerWait s) (\<lambda>s1.
        let s2 = s1\<lparr>threads := link_last (threads s1) (newThread\<lparr>t_tid := tid\<rparr>)\<rparr>
        in Inr (rag_writerSignal s2)))"

fun resource_scan :: "resource_t list \<Rightarrow> lock_ptr \<Rightarrow> nat \<Rightarrow> nat option" where
  "resource_scan [] l i = None"
| "resource_scan (r # rs) l i = (if r_lock r = l then Some i else resource_scan rs l (Suc i))"

definition rag_getResource :: "lock_ptr \<Rightarrow> state \<Rightarrow> nat option" where
  "rag_getResource l s = resource_scan (resources s) l 0"

fun thread_scan :: "thread_t list \<Rightarrow> tid_t \<Rightarrow> nat \<Rightarrow> nat option" where
  "thread_scan [] tid i = None"
| "thread_scan (t # ts) tid i = (if t_tid t = tid then Some i else thread_scan ts tid (Suc i))"

definition rag_getThread :: "tid_t \<Rightarrow> state \<Rightarrow> nat option" where
  "rag_getThread tid s = thread_scan (threads s) tid 0"

text \<open>
  Stores through a node pointer, \<open>p->request = v\<close> and \<open>p->assignment = v\<close>:
  the store itself, and the dereference that precedes it.
\<close>

definition set_request :: "nat \<Rightarrow> nat option \<Rightarrow> state \<Rightarrow> state" where
  "set_request i v s = s\<lparr>threads := (threads s)[i := (threads s ! i)\<lparr>t_request := v\<rparr>]\<rparr>"

definition set_assignment :: "nat \<Rightarrow> nat option \<Rightarrow> state \<Rightarrow> state" where
  "set_assignment j v s = s\<lparr>resources := (resources s)[j := (resources s ! j)\<lparr>r_assignment := v\<rparr>]\<rparr>"

definition store_request :: "nat option \<Rightarrow> nat option \<Rightarrow> state \<Rightarrow> fault + state" where
  "store_request p v s =
     (case p of
        None \<Rightarrow> Inl NullDeref
      | Some i \<Rightarrow> if i < length (threads s) then Inr (set_request i v s) else Inl WildPointer)"

definition store_assignment :: "nat option \<Rightarrow> nat option \<Rightarrow> state \<Rightarrow> fault + state" where
  "store_assignment p v s =
     (case p of
        None \<Rightarrow> Inl NullDeref
      | Some j \<Rightarrow> if j < length (resources s) then Inr (set_assignment j v s) else Inl WildPointer)"

definition rag_setRequest :: "tid_t \<Rightarrow> lock_ptr \<Rightarrow> state \<Rightarrow> fault + state" where
  "rag_setRequest tid l s =
     bnd (rag_readerWait s) (\<lambda>s1.
       let threadToSet = rag_getThread tid s1;
           resourceToSet = rag_getResource l s1 in
       bnd (rag_readerSignal s1) (\<lambda>s2.
       bnd (rag_writerWait s2) (\<lambda>s3.
       bnd (store_request threadToSet resourceToSet s3) (\<lambda>s4.
         Inr (rag_writerSignal s4)))))"

definition rag_setAssignment :: "tid_t \<Rightarrow> lock_ptr \<Rightarrow> state \<Rightarrow> fault + state" where
  "rag_setAssignment tid l s =
     bnd (rag_readerWait s) (\<lambda>s1.
       let resourceToSet = rag_getResource l s1;
           threadToSet = rag_getThread tid s1 in
       bnd (rag_readerSignal s1) (\<lambda>s2.
       bnd (rag_writerWait s2) (\<lambda>s3.
       bnd (store_assignment resourceToSet threadToSet s3) (\<lambda>s4.
         Inr (rag_writerSignal s4)))))"

definition rag_removeRequest :: "tid_t \<Rightarrow> state \<Rightarrow> fault + state" where
  "rag_removeRequest tid s =
     bnd (rag_readerWait s) (\<lambda>s1.
       let threadToRemove = rag_getThread tid s1 in
       bnd (rag_readerSignal s1) (\<lambda>s2.
       bnd (rag_writerWait s2) (\<lambda>s3.
       bnd (store_request threadToRemove None s3) (\<lambda>s4.
         Inr (rag_writerSignal s4)))))"

definition rag_removeAssignment :: "lock_ptr \<Rightarrow> state \<Rightarrow> fault + state" where
  "rag_removeAssignment l s =
     bnd (rag_readerWait s) (\<lambda>s1.
       let resourceToRemove = rag_getResource l s1 in
       bnd (rag_readerSignal s1) (\<lambda>s2.
       bnd (rag_writerWait s2) (\<lambda>s3.
       bnd (store_assignment resourceToRemove None s3) (\<lambda>s4.
         Inr (rag_writerSignal s4)))))"

definition rag_isAssigned :: "lock_ptr \<Rightarrow> state \<Rightarrow> fault + (bool \<times> state)" where
  "rag_isAssigned l s =
     bnd (rag_readerWait s) (\<lambda>s1.
       case rag_getResource l s1 of
         None \<Rightarrow> Inl NullDeref
       | Some j \<Rightarrow>
           if j < length (resources s1)
           then bnd (rag_readerSignal s1) (\<lambda>s2.
                  Inr (r_assignment (resources s1 ! j) \<noteq> None, s2))
           else Inl WildPointer)"

fun thread_known :: "thread_t list \<Rightarrow> tid_t \<Rightarrow> bool" where
  "thread_known [] tid = False"
| "thread_known (t # ts) tid = (if t_tid t = tid then True else thread_known ts tid)"

definition rag_isNewThread :: "tid_t \<Rightarrow> state \<Rightarrow> fault + (bool \<times> state)" where
  "rag_isNewThread tid s =
     bnd (rag_readerWait s) (\<lambda>s1.
       if thread_known (threads s1) tid
       then bnd (rag_readerSignal s1) (\<lambda>s2. Inr (False, s2))
       else bnd (rag_readerSignal s1) (\<lambda>s2. Inr (True, s2)))"

section \<open>Cycle detector\<close>

definition untravelled :: "state \<Rightarrow> nat" where
  "untravelled s = length (filter (\<lambda>t. \<not> t_travelled t) (threads s))"

definition mark_thread :: "nat \<Rightarrow> state \<Rightarrow> state" where
  "mark_thread i s = s\<lparr>threads := (threads s)[i := (threads s ! i)\<lparr>t_travelled := True\<rparr>]\<rparr>"

definition mark_resource :: "nat \<Rightarrow> state \<Rightarrow> state" where
  "mark_resource j s = s\<lparr>resources := (resources s)[j := (resources s ! j)\<lparr>r_travelled := True\<rparr>]\<rparr>"

text \<open>
  \<open>rag_depthFirstSearch\<close>: the recursion of the source, one thread node
  and one resource node per call.
\<close>

function rag_depthFirstSearch :: "nat option \<Rightarrow> state \<Rightarrow> fault + (bool \<times> state)" where
  "rag_depthFirstSearch currentNode s =
     (case currentNode of
        None \<Rightarrow> Inr (False, s)
      | Some i \<Rightarrow>
          if \<not> i < length (threads s) then Inl WildPointer
          else if t_travelled (threads s ! i) then Inr (True, s)
          else
            (case t_request (threads s ! i) of
               None \<Rightarrow> Inr (False, mark_thread i s)
             | Some j \<Rightarrow>
                 if \<not> j < length (resources s) then Inl WildPointer
                 else if r_travelled (resources s ! j) then Inr (True, mark_thread i s)
                 else rag_depthFirstSearch (r_assignment (resources s ! j))
                        (mark_resource j (mark_thread i s))))"
  by pat_completeness auto
termination
proof (relation "measure (\<lambda>(p, s). untravelled s)")
  show "wf (measure (\<lambda>(p, s). untravelled s))" by simp
next
  fix currentNode :: "nat option" and s :: state and i j :: nat
  assume i: "\<not> \<not> i < length (threads s)" and u: "\<not> t_travelled (threads s ! i)"
  have less: "k < length ts \<Longrightarrow> \<not> t_travelled (ts ! k) \<Longrightarrow>
      length (filter (\<lambda>t. \<not> t_travelled t) (ts[k := (ts ! k)\<lparr>t_travelled := True\<rparr>]))
        < length (filter (\<lambda>t. \<not> t_travelled t) ts)" for ts :: "thread_t list" and k
  proof (induction ts arbitrary: k)
    case Nil
    then show ?case by simp
  next
    case (Cons t ts)
    show ?case
    proof (cases k)
      case 0
      with Cons.prems show ?thesis by simp
    next
      case (Suc m)
      with Cons.prems Cons.IH[of m] show ?thesis by simp
    qed
  qed
  from i u less[of i "threads s"]
  show "((r_assignment (resources s ! j), mark_resource j (mark_thread i s)),
         (currentNode, s)) \<in> measure (\<lambda>(p, s). untravelled s)"
    by (simp add: untravelled_def mark_resource_def mark_thread_def)
qed

declare rag_depthFirstSearch.simps [simp del]

definition clear_travelled :: "state \<Rightarrow> state" where
  "clear_travelled s =
     s\<lparr>resources := map (\<lambda>r. r\<lparr>r_travelled := False\<rparr>) (resources s),
       threads := map (\<lambda>t. t\<lparr>t_travelled := False\<rparr>) (threads s)\<rparr>"

definition rag_checkForCycles :: "tid_t \<Rightarrow> state \<Rightarrow> fault + (bool \<times> state)" where
  "rag_checkForCycles tid s =
     bnd (rag_readerWait s) (\<lambda>s1.
       let threadToSearch = rag_getThread tid s1 in
       bnd (rag_depthFirstSearch threadToSearch s1) (\<lambda>(isCycle, s2).
       bnd (rag_readerSignal (clear_travelled s2)) (\<lambda>s3.
         Inr (isCycle, s3))))"

section \<open>Lock protocol\<close>

definition init_lock :: "lock_ptr \<Rightarrow> state \<Rightarrow> fault + state" where
  "init_lock l s =
     (let s1 = (if firstRun s
                then s\<lparr>firstRun := False, assign_mutex := 1, assign_mutexRw := 1\<rparr>
                else s)
      in rag_addResource l (pthread_mutex_init l s1))"

text \<open>
  \<open>lock\<close> with the calling thread's id (\<open>pthread_self\<close>) as a parameter. The
  result is the returned \<open>int\<close>.
\<close>

definition lock :: "tid_t \<Rightarrow> lock_ptr \<Rightarrow> state \<Rightarrow> fault + (int \<times> state)" where
  "lock tid l s =
     bnd (rag_isNewThread tid s) (\<lambda>(new, s1).
     bnd (if new then rag_addThread tid s1 else Inr s1) (\<lambda>s2.
     bnd (rag_setRequest tid l s2) (\<lambda>s3.
     bnd (rag_checkForCycles tid s3) (\<lambda>(isCycle, s4).
       if \<not> isCycle then
         bnd (rag_setAssignment tid l s4) (\<lambda>s5.
         bnd (pthread_mutex_lock tid l s5) (\<lambda>s6.
         bnd (rag_removeRequest tid s6) (\<lambda>s7.
           Inr (1, s7))))
       else
         bnd (rag_removeRequest tid s4) (\<lambda>s5.
           Inr (0, s5))))))"

definition unlock :: "lock_ptr \<Rightarrow> state \<Rightarrow> fault + state" where
  "unlock l s =
     bnd (rag_removeAssignment l s) (\<lambda>s1.
       Inr (pthread_mutex_unlock l s1))"

text \<open>
  The two halves of \<open>lock\<close> around the call of \<open>pthread_mutex_lock\<close>, the only
  place where the caller can be suspended for long: \<open>lock_enter\<close> runs up to
  that call (result \<open>None\<close>) or to the \<open>return 0\<close> of the rejection (result
  \<open>Some 0\<close>); \<open>lock_resume\<close> is the rest, taken once the mutex is free.
\<close>

definition lock_enter :: "tid_t \<Rightarrow> lock_ptr \<Rightarrow> state \<Rightarrow> fault + (int option \<times> state)" where
  "lock_enter tid l s =
     bnd (rag_isNewThread tid s) (\<lambda>(new, s1).
     bnd (if new then rag_addThread tid s1 else Inr s1) (\<lambda>s2.
     bnd (rag_setRequest tid l s2) (\<lambda>s3.
     bnd (rag_checkForCycles tid s3) (\<lambda>(isCycle, s4).
       if \<not> isCycle then
         bnd (rag_setAssignment tid l s4) (\<lambda>s5. Inr (None, s5))
       else
         bnd (rag_removeRequest tid s4) (\<lambda>s5.
           Inr (Some 0, s5))))))"

definition lock_resume :: "tid_t \<Rightarrow> lock_ptr \<Rightarrow> state \<Rightarrow> fault + (int \<times> state)" where
  "lock_resume tid l s =
     bnd (pthread_mutex_lock tid l s) (\<lambda>s6.
     bnd (rag_removeRequest tid s6) (\<lambda>s7.
       Inr (1, s7)))"

text \<open>
  What \<open>if (rag_isNewThread(tid)) rag_addThread(tid)\<close> does to the graph.
\<close>

definition new_thread :: "tid_t \<Rightarrow> thread_t" where
  "new_thread tid = \<lparr>t_request = None, t_tid = tid, t_travelled = False\<rparr>"

definition new_resource :: "lock_ptr \<Rightarrow> resource_t" where
  "new_resource l = \<lparr>r_assignment = None, r_lock = l, r_travelled = False\<rparr>"

definition ensure_thread :: "tid_t \<Rightarrow> state \<Rightarrow> state" where
  "ensure_thread tid s =
     (if thread_known (threads s) tid then s
      else s\<lparr>threads := threads s @ [new_thread tid]\<rparr>)"

text \<open>
  The first three calls of \<open>lock\<close>, up to the tentative request edge, after
  which the cycle check runs.
\<close>

definition request_phase :: "tid_t \<Rightarrow> lock_ptr \<Rightarrow> state \<Rightarrow> fault + state" where
  "request_phase tid l s =
     bnd (rag_isNewThread tid s) (\<lambda>(new, s1).
     bnd (if new then rag_addThread tid s1 else Inr s1) (\<lambda>s2.
       rag_setRequest tid l s2))"

section \<open>The graph as a graph\<close>

datatype node = Thread nat | Resource nat

text \<open>The one edge that can leave a node: the request of a thread, the assignment of a resource.\<close>

fun out_edge :: "state \<Rightarrow> node \<Rightarrow> node option" where
  "out_edge s (Thread i) =
     (if i < length (threads s) then map_option Resource (t_request (threads s ! i)) else None)"
| "out_edge s (Resource j) =
     (if j < length (resources s) then map_option Thread (r_assignment (resources s ! j)) else None)"

definition rag_edges :: "state \<Rightarrow> (node \<times> node) set" where
  "rag_edges s = {(x, y). out_edge s x = Some y}"

text \<open>\<open>walk s x n\<close> is the node reached from \<open>x\<close> after \<open>n\<close> edges, if the path is that long.\<close>

fun walk :: "state \<Rightarrow> node \<Rightarrow> nat \<Rightarrow> node option" where
  "walk s x 0 = Some x"
| "walk s x (Suc n) = (case out_edge s x of None \<Rightarrow> None | Some y \<Rightarrow> walk s y n)"



definition has_cycle :: "state \<Rightarrow> bool" where
  "has_cycle s \<longleftrightarrow> (\<exists>x k. walk s x (Suc k) = Some x)"

fun marked :: "state \<Rightarrow> node \<Rightarrow> bool" where
  "marked s (Thread i) = (i < length (threads s) \<and> t_travelled (threads s ! i))"
| "marked s (Resource j) = (j < length (resources s) \<and> r_travelled (resources s ! j))"

definition finds :: "state \<Rightarrow> node \<Rightarrow> bool" where
  "finds s x \<longleftrightarrow> (\<exists>y. (x, y) \<in> (rag_edges s)\<^sup>* \<and> (marked s y \<or> (y, y) \<in> (rag_edges s)\<^sup>+))"

definition check_result :: "tid_t \<Rightarrow> state \<Rightarrow> bool" where
  "check_result tid s =
     (case rag_getThread tid s of None \<Rightarrow> False | Some i \<Rightarrow> finds s (Thread i))"

section \<open>States between calls\<close>

definition in_range :: "nat \<Rightarrow> nat option \<Rightarrow> bool" where
  "in_range n p = (case p of None \<Rightarrow> True | Some k \<Rightarrow> k < n)"

text \<open>Every edge points to a node of the graph.\<close>

definition pointers_valid :: "state \<Rightarrow> bool" where
  "pointers_valid s \<longleftrightarrow>
     list_all (in_range (length (resources s))) (map t_request (threads s)) \<and>
     list_all (in_range (length (threads s))) (map r_assignment (resources s))"

definition unmarked :: "state \<Rightarrow> bool" where
  "unmarked s \<longleftrightarrow>
     list_all (\<lambda>t. \<not> t_travelled t) (threads s) \<and>
     list_all (\<lambda>r. \<not> r_travelled r) (resources s)"

text \<open>The semaphores as \<open>init_lock\<close> creates them and as every call leaves them.\<close>

definition sync_idle :: "state \<Rightarrow> bool" where
  "sync_idle s \<longleftrightarrow> assign_mutex s = 1 \<and> assign_mutexRw s = 1 \<and> assign_readers s = 0"

definition reading :: "state \<Rightarrow> state" where
  "reading s = s\<lparr>assign_mutexRw := 0, assign_readers := 1\<rparr>"

definition rag_inv :: "state \<Rightarrow> bool" where
  "rag_inv s \<longleftrightarrow> \<not> firstRun s \<and> sync_idle s \<and> pointers_valid s \<and> unmarked s"


section \<open>The admission scheme under interleaving\<close>

text \<open>
  The statements of the four synchronization functions, one by one, so that
  several threads can run them interleaved. \<open>Read_section\<close> and
  \<open>Write_section\<close> stand for the graph access between a wait and its signal.
\<close>

datatype stmt =
    Wait_mutex | Post_mutex | Inc_readers | Dec_readers
  | Wait_rw_if_first | Post_rw_if_last | Read_section | Write_section

fun stmt_exec :: "stmt \<Rightarrow> state \<Rightarrow> fault + state" where
  "stmt_exec Wait_mutex s = sem_wait_mutex s"
| "stmt_exec Post_mutex s = Inr (sem_post_mutex s)"
| "stmt_exec Inc_readers s = Inr (s\<lparr>assign_readers := assign_readers s + 1\<rparr>)"
| "stmt_exec Dec_readers s = Inr (s\<lparr>assign_readers := assign_readers s - 1\<rparr>)"
| "stmt_exec Wait_rw_if_first s = (if assign_readers s = 1 then sem_wait_mutexRw s else Inr s)"
| "stmt_exec Post_rw_if_last s = Inr (if assign_readers s = 0 then sem_post_mutexRw s else s)"
| "stmt_exec Read_section s = Inr s"
| "stmt_exec Write_section s = Inr s"

definition readerWait_body :: "stmt list" where
  "readerWait_body = [Wait_mutex, Inc_readers, Wait_rw_if_first, Post_mutex]"

definition readerSignal_body :: "stmt list" where
  "readerSignal_body = [Wait_mutex, Dec_readers, Post_rw_if_last, Post_mutex]"

definition writerWait_body :: "stmt list" where
  "writerWait_body = [Wait_mutex]"

definition writerSignal_body :: "stmt list" where
  "writerSignal_body = [Post_mutex]"

fun stmts_exec :: "stmt list \<Rightarrow> state \<Rightarrow> fault + state" where
  "stmts_exec [] s = Inr s"
| "stmts_exec (c # cs) s = bnd (stmt_exec c s) (stmts_exec cs)"

definition reader :: "stmt list" where
  "reader = readerWait_body @ [Read_section] @ readerSignal_body"

definition writer :: "stmt list" where
  "writer = writerWait_body @ [Write_section] @ writerSignal_body"

text \<open>
  A configuration: the globals and what each thread still has to run. A
  schedule is the list of the threads that take the next statement.
\<close>

fun sched_step :: "nat \<Rightarrow> state \<times> stmt list list \<Rightarrow> fault + (state \<times> stmt list list)" where
  "sched_step i (s, ps) =
     (if i < length ps then
        (case ps ! i of
           [] \<Rightarrow> Inl Blocked
         | c # cs \<Rightarrow> bnd (stmt_exec c s) (\<lambda>s'. Inr (s', ps[i := cs])))
      else Inl Blocked)"

fun sched_run :: "nat list \<Rightarrow> state \<times> stmt list list \<Rightarrow> fault + (state \<times> stmt list list)" where
  "sched_run [] c = Inr c"
| "sched_run (i # is) c = bnd (sched_step i c) (sched_run is)"

definition in_read_section :: "stmt list \<Rightarrow> bool" where
  "in_read_section p \<longleftrightarrow> (case p of [] \<Rightarrow> False | c # cs \<Rightarrow> c = Read_section)"

definition in_write_section :: "stmt list \<Rightarrow> bool" where
  "in_write_section p \<longleftrightarrow> (case p of [] \<Rightarrow> False | c # cs \<Rightarrow> c = Write_section)"

definition created :: state where
  "created = initial\<lparr>firstRun := False, assign_mutex := 1, assign_mutexRw := 1\<rparr>"

section \<open>The lock protocol under interleaving\<close>

text \<open>
  Threads call the public operations; the only place where a call is cut in
  two is the wait in \<open>pthread_mutex_lock\<close>. A configuration is the globals
  and, for every thread suspended there, the lock it waits for. \<open>Wake\<close> is
  the return of that wait.
\<close>

datatype event =
    Init lock_ptr | Acquire tid_t lock_ptr | Wake tid_t | Release tid_t lock_ptr

type_synonym config = "state \<times> (tid_t \<Rightarrow> lock_ptr option)"

fun exec :: "event \<Rightarrow> config \<Rightarrow> fault + config" where
  "exec (Init l) (s, w) = bnd (init_lock l s) (\<lambda>s'. Inr (s', w))"
| "exec (Acquire tid l) (s, w) =
     (case w tid of
        Some _ \<Rightarrow> Inl Blocked
      | None \<Rightarrow> bnd (lock_enter tid l s) (\<lambda>(r, s').
          Inr (s', case r of None \<Rightarrow> w(tid := Some l) | Some _ \<Rightarrow> w)))"
| "exec (Wake tid) (s, w) =
     (case w tid of
        None \<Rightarrow> Inl Blocked
      | Some l \<Rightarrow> bnd (lock_resume tid l s) (\<lambda>(r, s'). Inr (s', w(tid := None))))"
| "exec (Release tid l) (s, w) =
     (case w tid of
        Some _ \<Rightarrow> Inl Blocked
      | None \<Rightarrow> bnd (unlock l s) (\<lambda>s'. Inr (s', w)))"

fun run :: "event list \<Rightarrow> config \<Rightarrow> fault + config" where
  "run [] c = Inr c"
| "run (e # es) c = bnd (exec e c) (run es)"

definition start :: config where
  "start = (initial, \<lambda>_. None)"

definition reachable :: "config \<Rightarrow> bool" where
  "reachable c \<longleftrightarrow> (\<exists>es. run es start = Inr c)"

text \<open>
  The states that the operations are called in: before the first
  \<open>init_lock\<close> nothing exists yet, afterwards \<open>rag_inv\<close> holds.
\<close>

definition pre_init :: "state \<Rightarrow> bool" where
  "pre_init s \<longleftrightarrow> firstRun s \<and> assign_mutex s = 0 \<and> assign_readers s = 0 \<and>
     threads s = [] \<and> resources s = []"

definition state_ok :: "state \<Rightarrow> bool" where
  "state_ok s \<longleftrightarrow> pre_init s \<or> rag_inv s"

definition tids :: "state \<Rightarrow> tid_t list" where
  "tids s = map t_tid (threads s)"

definition locks :: "state \<Rightarrow> lock_ptr list" where
  "locks s = map r_lock (resources s)"

text \<open>The nodes that one event adds to the two collections.\<close>

fun new_tids :: "event \<Rightarrow> state \<Rightarrow> tid_t list" where
  "new_tids (Acquire tid l) s = (if tid \<in> set (tids s) then [] else [tid])"
| "new_tids e s = []"

fun new_locks :: "event \<Rightarrow> lock_ptr list" where
  "new_locks (Init l) = [l]"
| "new_locks e = []"


section \<open>Example states\<close>

text \<open>
  States of a run with one lock at address 10 and the threads 1 and 2:
  after \<open>init_lock\<close>; thread 1 inside \<open>lock\<close>, about to wait for the
  mutex; thread 1 holding the lock; thread 2 inside \<open>lock\<close>, suspended on
  the mutex that thread 1 holds.
\<close>

definition one_lock :: state where
  "one_lock = \<lparr>threads = [],
     resources = [\<lparr>r_assignment = None, r_lock = 10, r_travelled = False\<rparr>],
     firstRun = False, assign_mutex = 1, assign_mutexRw = 1, assign_readers = 0,
     mutex_owner = (\<lambda>_. None)\<rparr>"

definition entering :: state where
  "entering = \<lparr>threads = [\<lparr>t_request = Some 0, t_tid = 1, t_travelled = False\<rparr>],
     resources = [\<lparr>r_assignment = Some 0, r_lock = 10, r_travelled = False\<rparr>],
     firstRun = False, assign_mutex = 1, assign_mutexRw = 1, assign_readers = 0,
     mutex_owner = (\<lambda>_. None)\<rparr>"

definition holding :: state where
  "holding = \<lparr>threads = [\<lparr>t_request = None, t_tid = 1, t_travelled = False\<rparr>],
     resources = [\<lparr>r_assignment = Some 0, r_lock = 10, r_travelled = False\<rparr>],
     firstRun = False, assign_mutex = 1, assign_mutexRw = 1, assign_readers = 0,
     mutex_owner = (\<lambda>_. None)(10 := Some 1)\<rparr>"

definition contended :: state where
  "contended = \<lparr>threads = [\<lparr>t_request = None, t_tid = 1, t_travelled = False\<rparr>,
                           \<lparr>t_request = Some 0, t_tid = 2, t_travelled = False\<rparr>],
     resources = [\<lparr>r_assignment = Some 1, r_lock = 10, r_travelled = False\<rparr>],
     firstRun = False, assign_mutex = 1, assign_mutexRw = 1, assign_readers = 0,
     mutex_owner = (\<lambda>_. None)(10 := Some 1)\<rparr>"

text \<open>A state whose markers are set, as a traversal leaves them before its reset loops.\<close>

definition travelled_state :: state where
  "travelled_state = \<lparr>threads = [\<lparr>t_request = Some 0, t_tid = 1, t_travelled = False\<rparr>],
     resources = [\<lparr>r_assignment = None, r_lock = 10, r_travelled = True\<rparr>],
     firstRun = False, assign_mutex = 1, assign_mutexRw = 1, assign_readers = 0,
     mutex_owner = (\<lambda>_. None)\<rparr>"

text \<open>
  Two locks, at 10 and 20: thread 1 holds lock 10 and is suspended inside
  \<open>lock\<close> on lock 20, which thread 2 holds.
\<close>

definition crossed :: state where
  "crossed = \<lparr>threads = [\<lparr>t_request = Some 1, t_tid = 1, t_travelled = False\<rparr>,
                         \<lparr>t_request = None, t_tid = 2, t_travelled = False\<rparr>],
     resources = [\<lparr>r_assignment = Some 0, r_lock = 10, r_travelled = False\<rparr>,
                  \<lparr>r_assignment = Some 0, r_lock = 20, r_travelled = False\<rparr>],
     firstRun = False, assign_mutex = 1, assign_mutexRw = 1, assign_readers = 0,
     mutex_owner = (\<lambda>_. None)(10 := Some 1, 20 := Some 2)\<rparr>"

text \<open>
  Two locks, at 10 and 20: thread 1 holds the mutex of lock 10 and is
  suspended inside \<open>lock\<close> on lock 20, thread 2 holds the mutex of lock 20
  and is suspended inside \<open>lock\<close> on lock 10.
\<close>

definition deadlocked :: state where
  "deadlocked = \<lparr>threads = [\<lparr>t_request = Some 0, t_tid = 2, t_travelled = False\<rparr>,
                            \<lparr>t_request = Some 1, t_tid = 1, t_travelled = False\<rparr>],
     resources = [\<lparr>r_assignment = Some 0, r_lock = 10, r_travelled = False\<rparr>,
                  \<lparr>r_assignment = Some 1, r_lock = 20, r_travelled = False\<rparr>],
     firstRun = False, assign_mutex = 1, assign_mutexRw = 1, assign_readers = 0,
     mutex_owner = (\<lambda>_. None)(10 := Some 1, 20 := Some 2)\<rparr>"

text \<open>
  Every thread with a request edge is suspended inside \<open>lock\<close>, and no two
  thread nodes have the same id.
\<close>

definition requests_waiting :: "config \<Rightarrow> bool" where
  "requests_waiting c \<longleftrightarrow>
     distinct (tids (fst c)) \<and>
     (\<forall>k < length (threads (fst c)).
        t_request (threads (fst c) ! k) \<noteq> None \<longrightarrow> snd c (t_tid (threads (fst c) ! k)) \<noteq> None)"

section \<open>The cycle check under interleaving\<close>

text \<open>
  \<open>rag_checkForCycles\<close> runs in a reader section, which admits several
  threads at once, so calls of different threads can overlap. One call cut
  into its steps: the \<open>rag_readerWait\<close> with the lookup of the thread node;
  the first half of a call of \<open>rag_depthFirstSearch\<close>, on the thread node;
  its second half, on the resource node; the two reset loops; the
  \<open>rag_readerSignal\<close> before the return.
\<close>

datatype check_pc =
    Before | Search "nat option" | Search_res nat | Reset bool | Signal bool | Returned bool

fun check_step :: "tid_t \<Rightarrow> check_pc \<Rightarrow> state \<Rightarrow> fault + (check_pc \<times> state)" where
  "check_step tid Before s =
     bnd (rag_readerWait s) (\<lambda>s1. Inr (Search (rag_getThread tid s1), s1))"
| "check_step tid (Search currentNode) s =
     (case currentNode of
        None \<Rightarrow> Inr (Reset False, s)
      | Some i \<Rightarrow>
          if \<not> i < length (threads s) then Inl WildPointer
          else if t_travelled (threads s ! i) then Inr (Reset True, s)
          else
            (case t_request (threads s ! i) of
               None \<Rightarrow> Inr (Reset False, mark_thread i s)
             | Some j \<Rightarrow> Inr (Search_res j, mark_thread i s)))"
| "check_step tid (Search_res j) s =
     (if \<not> j < length (resources s) then Inl WildPointer
      else if r_travelled (resources s ! j) then Inr (Reset True, s)
      else Inr (Search (r_assignment (resources s ! j)), mark_resource j s))"
| "check_step tid (Reset isCycle) s = Inr (Signal isCycle, clear_travelled s)"
| "check_step tid (Signal isCycle) s =
     bnd (rag_readerSignal s) (\<lambda>s3. Inr (Returned isCycle, s3))"
| "check_step tid (Returned isCycle) s = Inl Blocked"

fun check_steps :: "nat \<Rightarrow> tid_t \<Rightarrow> check_pc \<times> state \<Rightarrow> fault + (check_pc \<times> state)" where
  "check_steps 0 tid c = Inr c"
| "check_steps (Suc n) tid c = bnd (check_step tid (fst c) (snd c)) (check_steps n tid)"

fun check_sched_step ::
  "nat \<Rightarrow> state \<times> (tid_t \<times> check_pc) list \<Rightarrow> fault + (state \<times> (tid_t \<times> check_pc) list)" where
  "check_sched_step k (s, ps) =
     (if k < length ps then
        bnd (check_step (fst (ps ! k)) (snd (ps ! k)) s) (\<lambda>(pc, s').
          Inr (s', ps[k := (fst (ps ! k), pc)]))
      else Inl Blocked)"

fun check_sched_run ::
  "nat list \<Rightarrow> state \<times> (tid_t \<times> check_pc) list \<Rightarrow> fault + (state \<times> (tid_t \<times> check_pc) list)" where
  "check_sched_run [] c = Inr c"
| "check_sched_run (k # ks) c = bnd (check_sched_step k c) (check_sched_run ks)"

text \<open>
  Locks 10 and 20 are initialized, thread 1 is inside \<open>lock\<close> of lock 10 and
  thread 2 inside \<open>lock\<close> of lock 20, both with their request edge set and
  about to call the cycle check.
\<close>

definition both_requesting :: state where
  "both_requesting =
     \<lparr>threads = [\<lparr>t_request = Some 0, t_tid = 1, t_travelled = False\<rparr>,
                 \<lparr>t_request = Some 1, t_tid = 2, t_travelled = False\<rparr>],
      resources = [\<lparr>r_assignment = None, r_lock = 10, r_travelled = False\<rparr>,
                   \<lparr>r_assignment = None, r_lock = 20, r_travelled = False\<rparr>],
      firstRun = False, assign_mutex = 1, assign_mutexRw = 1, assign_readers = 0,
      mutex_owner = (\<lambda>_. None)\<rparr>"

text \<open>
  The assignment edge of the resource node of lock \<open>l\<close> points to the thread
  node of \<open>tid\<close>.
\<close>

definition assigned_to :: "tid_t \<Rightarrow> lock_ptr \<Rightarrow> state \<Rightarrow> bool" where
  "assigned_to tid l s =
     (case rag_getResource l s of
        None \<Rightarrow> False
      | Some j \<Rightarrow>
          (case rag_getThread tid s of
             None \<Rightarrow> False
           | Some i \<Rightarrow> r_assignment (resources s ! j) = Some i))"

section \<open>Lemmas: synchronization in sequential use\<close>

lemma rag_readerWait_idle: "sync_idle s \<Longrightarrow> rag_readerWait s = Inr (reading s)"
  by (cases s) (simp add: sync_idle_def rag_readerWait_def sem_wait_mutex_def
      sem_wait_mutexRw_def sem_post_mutex_def reading_def)

lemma rag_readerSignal_reading: "sync_idle s \<Longrightarrow> rag_readerSignal (reading s) = Inr s"
  by (cases s) (simp add: sync_idle_def rag_readerSignal_def sem_wait_mutex_def
      sem_post_mutexRw_def sem_post_mutex_def reading_def)

lemma store_request_idle:
  "sync_idle s \<Longrightarrow>
     bnd (rag_writerWait s) (\<lambda>s3. bnd (store_request p v s3) (\<lambda>s4. Inr (rag_writerSignal s4)))
       = store_request p v s"
  by (cases s; cases p)
     (simp_all add: sync_idle_def rag_writerWait_def rag_writerSignal_def sem_wait_mutex_def
        sem_post_mutex_def store_request_def set_request_def)

lemma store_assignment_idle:
  "sync_idle s \<Longrightarrow>
     bnd (rag_writerWait s) (\<lambda>s3. bnd (store_assignment p v s3) (\<lambda>s4. Inr (rag_writerSignal s4)))
       = store_assignment p v s"
  by (cases s; cases p)
     (simp_all add: sync_idle_def rag_writerWait_def rag_writerSignal_def sem_wait_mutex_def
        sem_post_mutex_def store_assignment_def set_assignment_def)

lemma getThread_reading [simp]: "rag_getThread tid (reading s) = rag_getThread tid s"
  by (simp add: rag_getThread_def reading_def)

lemma getResource_reading [simp]: "rag_getResource l (reading s) = rag_getResource l s"
  by (simp add: rag_getResource_def reading_def)

lemma rag_setRequest_idle:
  "sync_idle s \<Longrightarrow>
     rag_setRequest tid l s = store_request (rag_getThread tid s) (rag_getResource l s) s"
  by (simp add: rag_setRequest_def rag_readerWait_idle rag_readerSignal_reading store_request_idle)

lemma rag_setAssignment_idle:
  "sync_idle s \<Longrightarrow>
     rag_setAssignment tid l s = store_assignment (rag_getResource l s) (rag_getThread tid s) s"
  by (simp add: rag_setAssignment_def rag_readerWait_idle rag_readerSignal_reading store_assignment_idle)

lemma rag_removeRequest_idle:
  "sync_idle s \<Longrightarrow> rag_removeRequest tid s = store_request (rag_getThread tid s) None s"
  by (simp add: rag_removeRequest_def rag_readerWait_idle rag_readerSignal_reading store_request_idle)

lemma rag_removeAssignment_idle:
  "sync_idle s \<Longrightarrow> rag_removeAssignment l s = store_assignment (rag_getResource l s) None s"
  by (simp add: rag_removeAssignment_def rag_readerWait_idle rag_readerSignal_reading store_assignment_idle)

lemma link_last_append: "link_last xs n = xs @ [n]"
  by (induction xs) simp_all

lemma rag_addResource_idle:
  "sync_idle s \<Longrightarrow>
     rag_addResource l s =
       Inr (s\<lparr>resources := resources s @ [new_resource l]\<rparr>)"
  by (cases s) (simp add: new_resource_def sync_idle_def rag_addResource_def rag_writerWait_def rag_writerSignal_def
      sem_wait_mutex_def sem_post_mutex_def rag_createResource_def link_last_append)

lemma rag_addThread_idle:
  "sync_idle s \<Longrightarrow>
     rag_addThread tid s =
       Inr (s\<lparr>threads := threads s @ [new_thread tid]\<rparr>)"
  by (cases s) (simp add: new_thread_def sync_idle_def rag_addThread_def rag_writerWait_def rag_writerSignal_def
      sem_wait_mutex_def sem_post_mutex_def rag_createThread_def link_last_append)

lemma reading_fields [simp]:
  "threads (reading s) = threads s" "resources (reading s) = resources s"
  "firstRun (reading s) = firstRun s" "mutex_owner (reading s) = mutex_owner s"
  by (simp_all add: reading_def)

lemma rag_isNewThread_idle:
  "sync_idle s \<Longrightarrow> rag_isNewThread tid s = Inr (\<not> thread_known (threads s) tid, s)"
  by (simp add: rag_isNewThread_def rag_readerWait_idle rag_readerSignal_reading)




section \<open>Lemmas: marking leaves the edges alone\<close>

lemma nth_mark_thread [simp]:
  "k < length ts \<Longrightarrow> t_request (ts[i := (ts ! i)\<lparr>t_travelled := True\<rparr>] ! k) = t_request (ts ! k)"
  "k < length ts \<Longrightarrow> t_tid (ts[i := (ts ! i)\<lparr>t_travelled := True\<rparr>] ! k) = t_tid (ts ! k)"
  "k < length ts \<Longrightarrow> t_travelled (ts[i := (ts ! i)\<lparr>t_travelled := True\<rparr>] ! k) \<longleftrightarrow>
     t_travelled (ts ! k) \<or> k = i"
  by (cases "i = k"; auto)+

lemma nth_mark_resource [simp]:
  "k < length rs \<Longrightarrow> r_assignment (rs[j := (rs ! j)\<lparr>r_travelled := True\<rparr>] ! k) = r_assignment (rs ! k)"
  "k < length rs \<Longrightarrow> r_lock (rs[j := (rs ! j)\<lparr>r_travelled := True\<rparr>] ! k) = r_lock (rs ! k)"
  "k < length rs \<Longrightarrow> r_travelled (rs[j := (rs ! j)\<lparr>r_travelled := True\<rparr>] ! k) \<longleftrightarrow>
     r_travelled (rs ! k) \<or> k = j"
  by (cases "j = k"; auto)+

lemma out_edge_mark_thread [simp]: "out_edge (mark_thread i s) x = out_edge s x"
  by (cases x) (simp_all add: mark_thread_def)

lemma out_edge_mark_resource [simp]: "out_edge (mark_resource j s) x = out_edge s x"
  by (cases x) (simp_all add: mark_resource_def)

lemma rag_edges_mark [simp]:
  "rag_edges (mark_thread i s) = rag_edges s" "rag_edges (mark_resource j s) = rag_edges s"
  by (simp_all add: rag_edges_def)

lemma marked_mark_thread:
  "i < length (threads s) \<Longrightarrow> marked (mark_thread i s) y \<longleftrightarrow> marked s y \<or> y = Thread i"
  by (cases y) (auto simp: mark_thread_def)

lemma marked_mark_resource:
  "j < length (resources s) \<Longrightarrow> marked (mark_resource j s) y \<longleftrightarrow> marked s y \<or> y = Resource j"
  by (cases y) (auto simp: mark_resource_def)

lemma mark_fields [simp]:
  "resources (mark_thread i s) = resources s" "threads (mark_resource j s) = threads s"
  "length (threads (mark_thread i s)) = length (threads s)"
  "length (resources (mark_resource j s)) = length (resources s)"
  by (simp_all add: mark_thread_def mark_resource_def)

lemma map_update_same: "(\<And>x. f (g x) = f x) \<Longrightarrow> map f (xs[i := g (xs ! i)]) = map f xs"
proof (induction xs arbitrary: i)
  case Nil
  then show ?case by simp
next
  case (Cons x xs)
  then show ?case by (cases i) simp_all
qed

lemma mark_thread_maps [simp]:
  "map t_request (threads (mark_thread i s)) = map t_request (threads s)"
  "map t_tid (threads (mark_thread i s)) = map t_tid (threads s)"
  by (simp_all add: mark_thread_def map_update_same)

lemma mark_resource_maps [simp]:
  "map r_assignment (resources (mark_resource j s)) = map r_assignment (resources s)"
  "map r_lock (resources (mark_resource j s)) = map r_lock (resources s)"
  by (simp_all add: mark_resource_def map_update_same)

lemma pointers_valid_mark_thread: "pointers_valid s \<Longrightarrow> pointers_valid (mark_thread i s)"
  by (simp add: pointers_valid_def)

lemma pointers_valid_mark_resource: "pointers_valid s \<Longrightarrow> pointers_valid (mark_resource j s)"
  by (simp add: pointers_valid_def)

lemma pointers_valid_request:
  "pointers_valid s \<Longrightarrow> i < length (threads s) \<Longrightarrow> t_request (threads s ! i) = Some j \<Longrightarrow>
     j < length (resources s)"
  unfolding pointers_valid_def list_all_length by (fastforce simp: in_range_def)

lemma pointers_valid_assignment:
  "pointers_valid s \<Longrightarrow> j < length (resources s) \<Longrightarrow> r_assignment (resources s ! j) = Some i \<Longrightarrow>
     i < length (threads s)"
  unfolding pointers_valid_def list_all_length by (fastforce simp: in_range_def)

section \<open>Lemmas: reachability along a single-valued edge relation\<close>

lemma reach_step:
  assumes "(x, y) \<in> (rag_edges s)\<^sup>*" and "out_edge s x = Some x'"
  shows "y = x \<or> (x', y) \<in> (rag_edges s)\<^sup>*"
  using assms(1)
proof (cases rule: converse_rtranclE)
  case base
  then show ?thesis by simp
next
  case (step z)
  with assms(2) show ?thesis by (simp add: rag_edges_def)
qed

lemma reach_dead_end:
  assumes "(x, y) \<in> (rag_edges s)\<^sup>*" and "out_edge s x = None"
  shows "y = x"
  using assms(1)
proof (cases rule: converse_rtranclE)
  case base
  then show ?thesis by simp
next
  case (step z)
  with assms(2) show ?thesis by (simp add: rag_edges_def)
qed

lemma cycle_step:
  assumes "out_edge s x = Some x'"
  shows "(x, x) \<in> (rag_edges s)\<^sup>+ \<longleftrightarrow> (x', x) \<in> (rag_edges s)\<^sup>*"
proof
  assume "(x, x) \<in> (rag_edges s)\<^sup>+"
  then obtain z where "(x, z) \<in> rag_edges s" "(z, x) \<in> (rag_edges s)\<^sup>*"
    by (auto dest: tranclD)
  with assms show "(x', x) \<in> (rag_edges s)\<^sup>*" by (simp add: rag_edges_def)
next
  assume "(x', x) \<in> (rag_edges s)\<^sup>*"
  moreover from assms have "(x, x') \<in> rag_edges s" by (simp add: rag_edges_def)
  ultimately show "(x, x) \<in> (rag_edges s)\<^sup>+" by (rule rtrancl_into_trancl2[rotated])
qed

lemma no_cycle_dead_end: "out_edge s x = None \<Longrightarrow> (x, x) \<notin> (rag_edges s)\<^sup>+"
  by (auto dest: tranclD simp: rag_edges_def)

lemma finds_marked: "marked s x \<Longrightarrow> finds s x"
  unfolding finds_def by blast

lemma finds_dead_end: "out_edge s x = None \<Longrightarrow> finds s x \<longleftrightarrow> marked s x"
  unfolding finds_def by (auto dest: reach_dead_end no_cycle_dead_end)

text \<open>One step of the walk over an unmarked node: the node becomes marked, and
  the question moves to its successor.\<close>

lemma finds_step:
  assumes e: "out_edge s x = Some x'" and u: "\<not> marked s x"
    and E: "rag_edges s1 = rag_edges s" and M: "\<And>y. marked s1 y \<longleftrightarrow> marked s y \<or> y = x"
  shows "finds s x \<longleftrightarrow> finds s1 x'"
proof
  assume "finds s x"
  then obtain y where y: "(x, y) \<in> (rag_edges s)\<^sup>*" "marked s y \<or> (y, y) \<in> (rag_edges s)\<^sup>+"
    unfolding finds_def by blast
  from reach_step[OF y(1) e] show "finds s1 x'"
  proof
    assume "y = x"
    with y(2) u have "(x, x) \<in> (rag_edges s)\<^sup>+" by simp
    then have "(x', x) \<in> (rag_edges s)\<^sup>*" using cycle_step[OF e] by simp
    then show ?thesis unfolding finds_def E using M by blast
  next
    assume "(x', y) \<in> (rag_edges s)\<^sup>*"
    then show ?thesis unfolding finds_def E using M y(2) by blast
  qed
next
  assume "finds s1 x'"
  then obtain y where y: "(x', y) \<in> (rag_edges s)\<^sup>*" "marked s y \<or> y = x \<or> (y, y) \<in> (rag_edges s)\<^sup>+"
    unfolding finds_def E M by blast
  from e have xx': "(x, x') \<in> rag_edges s" by (simp add: rag_edges_def)
  then have xy: "(x, y) \<in> (rag_edges s)\<^sup>*" using y(1) by (rule converse_rtrancl_into_rtrancl)
  from y(2) consider "marked s y \<or> (y, y) \<in> (rag_edges s)\<^sup>+" | "y = x" by blast
  then show "finds s x"
  proof cases
    case 1
    with xy show ?thesis unfolding finds_def by blast
  next
    case 2
    with y(1) have "(x, x) \<in> (rag_edges s)\<^sup>+" using cycle_step[OF e] by simp
    then show ?thesis unfolding finds_def by blast
  qed
qed




section \<open>Lemmas: what the traversal returns\<close>

lemma dfs_correct:
  "pointers_valid s \<Longrightarrow> in_range (length (threads s)) p \<Longrightarrow>
     \<exists>s'. rag_depthFirstSearch p s =
       Inr ((case p of None \<Rightarrow> False | Some i \<Rightarrow> finds s (Thread i)), s')"
proof (induction p s rule: rag_depthFirstSearch.induct)
  case (1 p s)
  show ?case
  proof (cases p)
    case None
    then show ?thesis by (simp add: rag_depthFirstSearch.simps)
  next
    case (Some i)
    with "1.prems" have i: "i < length (threads s)" by (simp add: in_range_def)
    show ?thesis
    proof (cases "t_travelled (threads s ! i)")
      case True
      with i have "finds s (Thread i)" by (simp add: finds_marked)
      with Some i True show ?thesis by (simp add: rag_depthFirstSearch.simps)
    next
      case unvisited: False
      with i have ui: "\<not> marked s (Thread i)" by simp
      show ?thesis
      proof (cases "t_request (threads s ! i)")
        case None
        with i have "out_edge s (Thread i) = None" by simp
        with ui have "\<not> finds s (Thread i)" by (simp add: finds_dead_end)
        with Some i unvisited None show ?thesis by (simp add: rag_depthFirstSearch.simps)
      next
        case req: (Some j)
        with "1.prems" i have j: "j < length (resources s)" by (simp add: pointers_valid_request)
        from req i have e1: "out_edge s (Thread i) = Some (Resource j)" by simp
        let ?s1 = "mark_thread i s"
        have f1: "finds s (Thread i) \<longleftrightarrow> finds ?s1 (Resource j)"
          using e1 ui by (rule finds_step) (simp_all add: marked_mark_thread i)
        show ?thesis
        proof (cases "r_travelled (resources s ! j)")
          case True
          with j have "marked ?s1 (Resource j)" by simp
          then have "finds s (Thread i)" using f1 by (simp add: finds_marked)
          with Some i unvisited req j True show ?thesis by (simp add: rag_depthFirstSearch.simps)
        next
          case runvisited: False
          with j have uj: "\<not> marked ?s1 (Resource j)" by simp
          let ?s2 = "mark_resource j ?s1"
          let ?p = "r_assignment (resources s ! j)"
          have unfold: "rag_depthFirstSearch p s = rag_depthFirstSearch ?p ?s2"
            using Some i unvisited req j runvisited
            by (subst rag_depthFirstSearch.simps) simp
          have pv2: "pointers_valid ?s2"
            using "1.prems"(1) by (simp add: pointers_valid_mark_thread pointers_valid_mark_resource)
          have rng: "in_range (length (threads ?s2)) ?p"
            using "1.prems"(1) j by (cases ?p) (simp_all add: in_range_def pointers_valid_assignment)
          from "1.IH"[OF Some _ _ req _ _ pv2 rng] i unvisited j runvisited
          obtain s' where rec: "rag_depthFirstSearch ?p ?s2 =
              Inr ((case ?p of None \<Rightarrow> False | Some k \<Rightarrow> finds ?s2 (Thread k)), s')"
            by auto
          have "finds ?s1 (Resource j) \<longleftrightarrow> (case ?p of None \<Rightarrow> False | Some k \<Rightarrow> finds ?s2 (Thread k))"
          proof (cases ?p)
            case None
            with j have "out_edge ?s1 (Resource j) = None" by simp
            with uj None show ?thesis by (simp add: finds_dead_end)
          next
            case (Some k)
            with j have e2: "out_edge ?s1 (Resource j) = Some (Thread k)" by simp
            have "finds ?s1 (Resource j) \<longleftrightarrow> finds ?s2 (Thread k)"
              using e2 uj by (rule finds_step) (simp_all add: marked_mark_resource j)
            with Some show ?thesis by simp
          qed
          with f1 rec unfold Some show ?thesis by simp
        qed
      qed
    qed
  qed
qed




section \<open>Lemmas: walks and reachability\<close>













section \<open>Lemmas: the cycle check between calls\<close>

lemma clear_mark_thread [simp]: "clear_travelled (mark_thread i s) = clear_travelled s"
  by (simp add: clear_travelled_def mark_thread_def map_update_same)

lemma clear_mark_resource [simp]: "clear_travelled (mark_resource j s) = clear_travelled s"
  by (simp add: clear_travelled_def mark_resource_def map_update_same)

lemma dfs_clear:
  "rag_depthFirstSearch p s = Inr (b, s') \<Longrightarrow> clear_travelled s' = clear_travelled s"
proof (induction p s rule: rag_depthFirstSearch.induct)
  case (1 p s)
  from "1.prems" show ?case
    by (subst (asm) rag_depthFirstSearch.simps)
       (auto split: option.splits if_splits dest: "1.IH")
qed

lemma clear_unmarked: "unmarked s \<Longrightarrow> clear_travelled s = s"
  by (simp add: unmarked_def clear_travelled_def list_all_iff map_idI)

lemma unmarked_clear: "unmarked (clear_travelled s)"
  by (simp add: unmarked_def clear_travelled_def list_all_iff)

lemma clear_reading: "clear_travelled (reading s) = reading (clear_travelled s)"
  by (simp add: clear_travelled_def reading_def)

lemma sync_idle_clear [simp]: "sync_idle (clear_travelled s) = sync_idle s"
  by (simp add: clear_travelled_def sync_idle_def)

lemma out_edge_reading [simp]: "out_edge (reading s) x = out_edge s x"
  by (cases x) simp_all

lemma marked_reading [simp]: "marked (reading s) x = marked s x"
  by (cases x) simp_all

lemma finds_reading [simp]: "finds (reading s) x = finds s x"
  by (simp add: finds_def rag_edges_def)

lemma pointers_valid_reading [simp]: "pointers_valid (reading s) = pointers_valid s"
  by (simp add: pointers_valid_def)

lemma thread_scan_bound: "thread_scan ts tid n = Some i \<Longrightarrow> n \<le> i \<and> i < n + length ts"
  by (induction ts arbitrary: n) (fastforce split: if_splits)+

lemma thread_scan_tid: "thread_scan ts tid n = Some i \<Longrightarrow> t_tid (ts ! (i - n)) = tid"
proof (induction ts arbitrary: n)
  case Nil
  then show ?case by simp
next
  case (Cons t ts)
  show ?case
  proof (cases "t_tid t = tid")
    case True
    with Cons.prems show ?thesis by simp
  next
    case False
    with Cons.prems have r: "thread_scan ts tid (Suc n) = Some i" by simp
    from thread_scan_bound[OF r] have "i - n = Suc (i - Suc n)" by arith
    with Cons.IH[OF r] show ?thesis by simp
  qed
qed

lemma resource_scan_bound: "resource_scan rs l n = Some j \<Longrightarrow> n \<le> j \<and> j < n + length rs"
  by (induction rs arbitrary: n) (fastforce split: if_splits)+

lemma resource_scan_lock: "resource_scan rs l n = Some j \<Longrightarrow> r_lock (rs ! (j - n)) = l"
proof (induction rs arbitrary: n)
  case Nil
  then show ?case by simp
next
  case (Cons r rs)
  show ?case
  proof (cases "r_lock r = l")
    case True
    with Cons.prems show ?thesis by simp
  next
    case False
    with Cons.prems have r: "resource_scan rs l (Suc n) = Some j" by simp
    from resource_scan_bound[OF r] have "j - n = Suc (j - Suc n)" by arith
    with Cons.IH[OF r] show ?thesis by simp
  qed
qed

lemma getThread_range: "in_range (length (threads s)) (rag_getThread tid s)"
  by (cases "rag_getThread tid s")
     (auto simp: in_range_def rag_getThread_def dest: thread_scan_bound)

lemma getResource_range: "in_range (length (resources s)) (rag_getResource l s)"
  by (cases "rag_getResource l s")
     (auto simp: in_range_def rag_getResource_def dest: resource_scan_bound)

lemma rag_checkForCycles_idle:
  assumes "sync_idle s" "pointers_valid s"
  shows "rag_checkForCycles tid s = Inr (check_result tid s, clear_travelled s)"
proof -
  have "pointers_valid (reading s)" using assms(2) by simp
  moreover have "in_range (length (threads (reading s))) (rag_getThread tid s)"
    using getThread_range[of s tid] by simp
  ultimately obtain s2 where d: "rag_depthFirstSearch (rag_getThread tid s) (reading s) =
      Inr (check_result tid s, s2)"
    using dfs_correct[of "reading s" "rag_getThread tid s"]
    by (auto simp: check_result_def split: option.splits)
  from dfs_clear[OF d] have "clear_travelled s2 = reading (clear_travelled s)"
    by (simp add: clear_reading)
  with assms(1) d show ?thesis
    by (simp add: rag_checkForCycles_def rag_readerWait_idle rag_readerSignal_reading)
qed


section \<open>Lemmas: lookups, stores and the invariant\<close>

lemma bnd_Inr_iff: "bnd m f = Inr y \<longleftrightarrow> (\<exists>x. m = Inr x \<and> f x = Inr y)"
  by (cases m) simp_all

lemma list_all_update: "list_all P xs \<Longrightarrow> P v \<Longrightarrow> list_all P (xs[i := v])"
  using set_update_subset_insert[of xs i v] by (auto simp: list_all_iff)

lemma in_range_mono: "in_range n p \<Longrightarrow> n \<le> m \<Longrightarrow> in_range m p"
  by (cases p) (simp_all add: in_range_def)

lemma list_all_in_range_mono:
  "list_all (in_range n) ps \<Longrightarrow> n \<le> m \<Longrightarrow> list_all (in_range m) ps"
  by (auto simp: list_all_iff intro: in_range_mono)

text \<open>The lookups read the keys only.\<close>

lemma thread_scan_cong:
  "map t_tid ts = map t_tid ts' \<Longrightarrow> thread_scan ts tid n = thread_scan ts' tid n"
proof (induction ts arbitrary: ts' n)
  case Nil
  then show ?case by simp
next
  case (Cons t ts)
  then obtain t' ts'' where "ts' = t' # ts''" by (cases ts') simp_all
  with Cons show ?case by simp
qed

lemma resource_scan_cong:
  "map r_lock rs = map r_lock rs' \<Longrightarrow> resource_scan rs l n = resource_scan rs' l n"
proof (induction rs arbitrary: rs' n)
  case Nil
  then show ?case by simp
next
  case (Cons r rs)
  then obtain r' rs'' where "rs' = r' # rs''" by (cases rs') simp_all
  with Cons show ?case by simp
qed

lemma thread_known_set: "thread_known ts tid \<longleftrightarrow> tid \<in> set (map t_tid ts)"
  by (induction ts) auto

lemma thread_scan_None: "thread_scan ts tid n = None \<longleftrightarrow> tid \<notin> set (map t_tid ts)"
  by (induction ts arbitrary: n) auto

lemma resource_scan_None: "resource_scan rs l n = None \<longleftrightarrow> l \<notin> set (map r_lock rs)"
  by (induction rs arbitrary: n) auto

lemma thread_scan_append:
  "thread_scan (ts @ us) tid n =
     (case thread_scan ts tid n of Some i \<Rightarrow> Some i | None \<Rightarrow> thread_scan us tid (n + length ts))"
  by (induction ts arbitrary: n) (simp_all split: option.splits)

lemma resource_scan_append:
  "resource_scan (rs @ us) l n =
     (case resource_scan rs l n of Some j \<Rightarrow> Some j | None \<Rightarrow> resource_scan us l (n + length rs))"
  by (induction rs arbitrary: n) (simp_all split: option.splits)

lemma getThread_set_request [simp]:
  "rag_getThread tid (set_request i v s) =
     rag_getThread tid s"
  unfolding rag_getThread_def set_request_def by (simp add: thread_scan_cong[OF map_update_same])

lemma getResource_set_assignment [simp]:
  "rag_getResource l (set_assignment j v s) =
     rag_getResource l s"
  unfolding rag_getResource_def set_assignment_def by (simp add: resource_scan_cong[OF map_update_same])

lemma getThread_other_fields [simp]:
  "rag_getThread tid (s\<lparr>resources := rs\<rparr>) = rag_getThread tid s"
  "rag_getThread tid (set_assignment j v s) = rag_getThread tid s"
  "rag_getThread tid (s\<lparr>mutex_owner := m\<rparr>) = rag_getThread tid s"
  by (simp_all add: rag_getThread_def set_assignment_def)

lemma getResource_other_fields [simp]:
  "rag_getResource l (s\<lparr>threads := ts\<rparr>) = rag_getResource l s"
  "rag_getResource l (set_request i v s) = rag_getResource l s"
  "rag_getResource l (s\<lparr>mutex_owner := m\<rparr>) = rag_getResource l s"
  by (simp_all add: rag_getResource_def set_request_def)

lemma store_request_Some:
  "i < length (threads s) \<Longrightarrow>
     store_request (Some i) v s = Inr (set_request i v s)"
  by (simp add: store_request_def)

lemma store_assignment_Some:
  "j < length (resources s) \<Longrightarrow>
     store_assignment (Some j) v s = Inr (set_assignment j v s)"
  by (simp add: store_assignment_def)

lemma map_request_update:
  "map t_request (ts[i := (ts ! i)\<lparr>t_request := v\<rparr>]) = (map t_request ts)[i := v]"
  by (cases "i < length ts") (simp_all add: map_update)

lemma map_assignment_update:
  "map r_assignment (rs[j := (rs ! j)\<lparr>r_assignment := v\<rparr>]) = (map r_assignment rs)[j := v]"
  by (cases "j < length rs") (simp_all add: map_update)

lemma map_travelled_request:
  "map t_travelled (ts[i := (ts ! i)\<lparr>t_request := v\<rparr>]) = map t_travelled ts"
  by (rule map_update_same) simp

lemma map_travelled_assignment:
  "map r_travelled (rs[j := (rs ! j)\<lparr>r_assignment := v\<rparr>]) = map r_travelled rs"
  by (rule map_update_same) simp

lemma unmarked_maps:
  "unmarked s \<longleftrightarrow> list_all Not (map t_travelled (threads s)) \<and> list_all Not (map r_travelled (resources s))"
  by (simp add: unmarked_def list_all_iff)

lemma rag_inv_set_request:
  assumes "rag_inv s" "in_range (length (resources s)) v"
  shows "rag_inv (set_request i v s)"
  using assms
  by (simp add: rag_inv_def set_request_def sync_idle_def pointers_valid_def unmarked_maps
      map_request_update map_travelled_request list_all_update)

lemma rag_inv_set_assignment:
  assumes "rag_inv s" "in_range (length (threads s)) v"
  shows "rag_inv (set_assignment j v s)"
  using assms
  by (simp add: rag_inv_def set_assignment_def sync_idle_def pointers_valid_def unmarked_maps
      map_assignment_update map_travelled_assignment list_all_update)

lemma rag_inv_add_thread:
  assumes "rag_inv s"
  shows "rag_inv (s\<lparr>threads := threads s @ [new_thread tid]\<rparr>)"
  using assms
  by (auto simp: new_thread_def rag_inv_def sync_idle_def pointers_valid_def unmarked_def in_range_def
      intro: list_all_in_range_mono)

lemma rag_inv_add_resource:
  assumes "rag_inv s"
  shows "rag_inv (s\<lparr>resources := resources s @ [new_resource l]\<rparr>)"
  using assms
  by (auto simp: new_resource_def rag_inv_def sync_idle_def pointers_valid_def unmarked_def in_range_def
      intro: list_all_in_range_mono)

lemma rag_inv_mutex [simp]: "rag_inv (s\<lparr>mutex_owner := m\<rparr>) = rag_inv s"
  by (simp add: rag_inv_def sync_idle_def pointers_valid_def unmarked_def)

lemma rag_inv_idle: "rag_inv s \<Longrightarrow> sync_idle s"
  by (simp add: rag_inv_def)

lemma rag_checkForCycles_inv:
  "rag_inv s \<Longrightarrow> rag_checkForCycles tid s = Inr (check_result tid s, s)"
  by (simp add: rag_inv_def rag_checkForCycles_idle clear_unmarked)

section \<open>Lemmas: the lock protocol between calls\<close>

lemma set_fields [simp]:
  "resources (set_request i v s) = resources s"
  "threads (set_assignment j v s) = threads s"
  "mutex_owner (set_request i v s) = mutex_owner s"
  "mutex_owner (set_assignment j v s) = mutex_owner s"
  "firstRun (set_request i v s) = firstRun s"
  "firstRun (set_assignment j v s) = firstRun s"
  "length (threads (set_request i v s)) = length (threads s)"
  "length (resources (set_assignment j v s)) = length (resources s)"
  "map t_tid (threads (set_request i v s)) = map t_tid (threads s)"
  "map r_lock (resources (set_assignment j v s)) = map r_lock (resources s)"
  by (simp_all add: set_request_def set_assignment_def map_update_same)

lemma set_request_nth:
  "k < length (threads s) \<Longrightarrow>
     t_request (threads (set_request i v s) ! k) = (if k = i then v else t_request (threads s ! k))"
  by (simp add: set_request_def nth_list_update)

lemma set_assignment_nth:
  "k < length (resources s) \<Longrightarrow>
     r_assignment (resources (set_assignment j v s) ! k) =
       (if k = j then v else r_assignment (resources s ! k))"
  by (simp add: set_assignment_def nth_list_update)

lemma ensure_thread_idle:
  "sync_idle s \<Longrightarrow>
     bnd (rag_isNewThread tid s) (\<lambda>(new, s1). bnd (if new then rag_addThread tid s1 else Inr s1) f)
       = f (ensure_thread tid s)"
  by (simp add: rag_isNewThread_idle rag_addThread_idle ensure_thread_def)

lemma rag_inv_ensure_thread: "rag_inv s \<Longrightarrow> rag_inv (ensure_thread tid s)"
  by (simp add: ensure_thread_def rag_inv_add_thread)

lemma ensure_thread_fields [simp]:
  "resources (ensure_thread tid s) = resources s"
  "mutex_owner (ensure_thread tid s) = mutex_owner s"
  "firstRun (ensure_thread tid s) = firstRun s"
  "rag_getResource l (ensure_thread tid s) = rag_getResource l s"
  by (simp_all add: ensure_thread_def)

lemma ensure_thread_tids:
  "map t_tid (threads (ensure_thread tid s)) =
     map t_tid (threads s) @ (if tid \<in> set (map t_tid (threads s)) then [] else [tid])"
  by (simp add: ensure_thread_def thread_known_set new_thread_def)

lemma getThread_ensure: "\<exists>i. rag_getThread tid (ensure_thread tid s) = Some i"
proof -
  have "tid \<in> set (map t_tid (threads (ensure_thread tid s)))"
    by (simp add: ensure_thread_tids)
  then have "rag_getThread tid (ensure_thread tid s) \<noteq> None"
    unfolding rag_getThread_def thread_scan_None by simp
  then show ?thesis by blast
qed

lemma getThread_less: "rag_getThread tid s = Some i \<Longrightarrow> i < length (threads s)"
  using getThread_range[of s tid] by (simp add: in_range_def)

lemma getResource_less: "rag_getResource l s = Some j \<Longrightarrow> j < length (resources s)"
  using getResource_range[of s l] by (simp add: in_range_def)

lemma getThread_tid: "rag_getThread tid s = Some i \<Longrightarrow> t_tid (threads s ! i) = tid"
  unfolding rag_getThread_def by (drule thread_scan_tid) simp

lemma getResource_lock: "rag_getResource l s = Some j \<Longrightarrow> r_lock (resources s ! j) = l"
  unfolding rag_getResource_def by (drule resource_scan_lock) simp

lemma request_phase_inv:
  assumes "rag_inv s" "rag_getThread tid (ensure_thread tid s) = Some i"
  shows "request_phase tid l s = Inr (set_request i (rag_getResource l s) (ensure_thread tid s))"
proof -
  have "sync_idle (ensure_thread tid s)"
    using assms(1) by (intro rag_inv_idle rag_inv_ensure_thread)
  moreover have "i < length (threads (ensure_thread tid s))"
    using assms(2) by (rule getThread_less)
  ultimately show ?thesis
    using assms unfolding request_phase_def
    by (simp add: ensure_thread_idle[where f = "rag_setRequest tid l"] rag_inv_idle
        rag_setRequest_idle store_request_Some)
qed

lemma rag_inv_request_phase:
  assumes "rag_inv s"
  shows "rag_inv (set_request i (rag_getResource l s) (ensure_thread tid s))"
  using assms getResource_range[of s l]
  by (intro rag_inv_set_request rag_inv_ensure_thread) simp_all

lemma bnd_assoc: "bnd (bnd m f) g = bnd m (\<lambda>x. bnd (f x) g)"
  by (cases m) simp_all

lemma lock_split:
  "lock tid l s =
     bnd (request_phase tid l s) (\<lambda>s3.
     bnd (rag_checkForCycles tid s3) (\<lambda>(isCycle, s4).
       if \<not> isCycle then
         bnd (rag_setAssignment tid l s4) (\<lambda>s5.
         bnd (pthread_mutex_lock tid l s5) (\<lambda>s6.
         bnd (rag_removeRequest tid s6) (\<lambda>s7.
           Inr (1, s7))))
       else
         bnd (rag_removeRequest tid s4) (\<lambda>s5.
           Inr (0, s5))))"
  unfolding lock_def request_phase_def by (simp add: bnd_assoc split_def)

lemma lock_enter_split:
  "lock_enter tid l s =
     bnd (request_phase tid l s) (\<lambda>s3.
     bnd (rag_checkForCycles tid s3) (\<lambda>(isCycle, s4).
       if \<not> isCycle then
         bnd (rag_setAssignment tid l s4) (\<lambda>s5. Inr (None, s5))
       else
         bnd (rag_removeRequest tid s4) (\<lambda>s5.
           Inr (Some 0, s5))))"
  unfolding lock_enter_def request_phase_def by (simp add: bnd_assoc split_def)

lemma lock_enter_resume:
  "lock tid l s =
     bnd (lock_enter tid l s) (\<lambda>(r, s').
       case r of Some v \<Rightarrow> Inr (v, s') | None \<Rightarrow> lock_resume tid l s')"
  unfolding lock_split lock_enter_split lock_resume_def
  by (simp add: bnd_assoc split_def if_distrib[where f = "\<lambda>m. bnd m _"] cong: if_cong)

lemma rag_setAssignment_inv:
  "rag_inv s \<Longrightarrow>
     rag_setAssignment tid l s =
       (case rag_getResource l s of
          None \<Rightarrow> Inl NullDeref
        | Some j \<Rightarrow> Inr (set_assignment j (rag_getThread tid s) s))"
  by (auto simp: rag_setAssignment_idle rag_inv_idle store_assignment_def
      split: option.splits dest: getResource_less)

lemma rag_removeAssignment_inv:
  "rag_inv s \<Longrightarrow>
     rag_removeAssignment l s =
       (case rag_getResource l s of
          None \<Rightarrow> Inl NullDeref
        | Some j \<Rightarrow> Inr (set_assignment j None s))"
  by (auto simp: rag_removeAssignment_idle rag_inv_idle store_assignment_def
      split: option.splits dest: getResource_less)

lemma rag_setRequest_inv:
  "rag_inv s \<Longrightarrow>
     rag_setRequest tid l s =
       (case rag_getThread tid s of
          None \<Rightarrow> Inl NullDeref
        | Some i \<Rightarrow> Inr (set_request i (rag_getResource l s) s))"
  by (auto simp: rag_setRequest_idle rag_inv_idle store_request_def
      split: option.splits dest: getThread_less)

lemma rag_removeRequest_inv:
  "rag_inv s \<Longrightarrow>
     rag_removeRequest tid s =
       (case rag_getThread tid s of
          None \<Rightarrow> Inl NullDeref
        | Some i \<Rightarrow> Inr (set_request i None s))"
  by (auto simp: rag_removeRequest_idle rag_inv_idle store_request_def
      split: option.splits dest: getThread_less)

lemma lock_resume_inv:
  "rag_inv s \<Longrightarrow>
     lock_resume tid l s =
       (case mutex_owner s l of
          Some _ \<Rightarrow> Inl Blocked
        | None \<Rightarrow>
            (case rag_getThread tid s of
               None \<Rightarrow> Inl NullDeref
             | Some i \<Rightarrow> Inr (1, set_request i None (s\<lparr>mutex_owner := (mutex_owner s)(l := Some tid)\<rparr>))))"
  by (simp add: lock_resume_def pthread_mutex_lock_def rag_removeRequest_inv
      split: option.splits)

lemma unlock_inv:
  "rag_inv s \<Longrightarrow>
     unlock l s =
       (case rag_getResource l s of
          None \<Rightarrow> Inl NullDeref
        | Some j \<Rightarrow> Inr (pthread_mutex_unlock l (set_assignment j None s)))"
  by (simp add: unlock_def rag_removeAssignment_inv split: option.splits)

lemma lock_enter_inv:
  assumes "rag_inv s" "rag_getThread tid (ensure_thread tid s) = Some i"
  shows "lock_enter tid l s =
     (let s3 = set_request i (rag_getResource l s) (ensure_thread tid s) in
      if check_result tid s3 then Inr (Some 0, set_request i None s3)
      else (case rag_getResource l s of
              None \<Rightarrow> Inl NullDeref
            | Some j \<Rightarrow> Inr (None, set_assignment j (Some i) s3)))"
proof -
  let ?s3 = "set_request i (rag_getResource l s) (ensure_thread tid s)"
  have inv3: "rag_inv ?s3" using assms(1) by (rule rag_inv_request_phase)
  show ?thesis
    unfolding lock_enter_split request_phase_inv[OF assms]
    by (simp add: rag_checkForCycles_inv[OF inv3] rag_setAssignment_inv[OF inv3]
        rag_removeRequest_inv[OF inv3] assms(2) Let_def split: option.splits)
qed

lemma init_lock_created:
  "firstRun s \<or> 0 < assign_mutex s \<Longrightarrow>
     init_lock l s =
       Inr ((if firstRun s then s\<lparr>firstRun := False, assign_mutex := 1, assign_mutexRw := 1\<rparr> else s)
              \<lparr>mutex_owner := (mutex_owner s)(l := None),
               resources := resources s @ [new_resource l]\<rparr>)"
  by (cases s)
     (auto simp: init_lock_def rag_addResource_def rag_writerWait_def rag_writerSignal_def
        sem_wait_mutex_def sem_post_mutex_def pthread_mutex_init_def rag_createResource_def
        new_resource_def link_last_append)

section \<open>Lemmas: runs of events\<close>


lemma pre_init_blocks:
  assumes "pre_init s"
  shows "rag_readerWait s = Inl Blocked" "rag_writerWait s = Inl Blocked"
  using assms by (simp_all add: pre_init_def rag_readerWait_def rag_writerWait_def sem_wait_mutex_def)

lemma pre_init_lock_enter: "pre_init s \<Longrightarrow> lock_enter tid l s = Inl Blocked"
  by (simp add: lock_enter_def rag_isNewThread_def pre_init_blocks)

lemma pre_init_unlock: "pre_init s \<Longrightarrow> unlock l s = Inl Blocked"
  by (simp add: unlock_def rag_removeAssignment_def pre_init_blocks)

lemma pre_init_lock_resume: "pre_init s \<Longrightarrow> lock_resume tid l s = Inl Blocked"
  by (auto simp: lock_resume_def pthread_mutex_lock_def rag_removeRequest_def pre_init_def
      rag_readerWait_def sem_wait_mutex_def split: option.splits)

lemma init_lock_ok:
  assumes "state_ok s"
  shows "\<exists>s'. init_lock l s = Inr s' \<and> rag_inv s' \<and> tids s' = tids s \<and> locks s' = locks s @ [l]"
proof -
  from assms have c: "firstRun s \<or> 0 < assign_mutex s"
    by (auto simp: state_ok_def pre_init_def rag_inv_def sync_idle_def)
  from assms consider "pre_init s" | "rag_inv s" unfolding state_ok_def by blast
  then show ?thesis
  proof cases
    case 1
    then show ?thesis
      unfolding init_lock_created[OF c]
      by (simp add: pre_init_def rag_inv_def sync_idle_def pointers_valid_def unmarked_def
          new_resource_def in_range_def tids_def locks_def)
  next
    case 2
    then have "\<not> firstRun s" by (simp add: rag_inv_def)
    moreover from 2 have "rag_inv (s\<lparr>resources := resources s @ [new_resource l]\<rparr>)"
      by (rule rag_inv_add_resource)
    ultimately show ?thesis
      unfolding init_lock_created[OF c]
      by (simp add: tids_def locks_def new_resource_def rag_inv_def sync_idle_def
          pointers_valid_def unmarked_def)
  qed
qed

lemma lock_enter_ok:
  assumes "state_ok s" "lock_enter tid l s = Inr (r, s')"
  shows "rag_inv s' \<and> locks s' = locks s \<and>
     tids s' = tids s @ (if tid \<in> set (tids s) then [] else [tid])"
proof -
  from assms have inv: "rag_inv s"
    unfolding state_ok_def by (auto simp: pre_init_lock_enter)
  obtain i where i: "rag_getThread tid (ensure_thread tid s) = Some i"
    using getThread_ensure by blast
  let ?s2 = "ensure_thread tid s"
  let ?s3 = "set_request i (rag_getResource l s) ?s2"
  have inv3: "rag_inv ?s3" using inv by (rule rag_inv_request_phase)
  have il: "in_range (length (threads ?s3)) (Some i)"
    using getThread_less[OF i] by (simp add: in_range_def)
  have "rag_inv (set_request i None ?s3)"
    using inv3 by (rule rag_inv_set_request) (simp add: in_range_def)
  moreover have "rag_inv (set_assignment j (Some i) ?s3)" for j
    using inv3 il by (rule rag_inv_set_assignment)
  ultimately show ?thesis
    using assms(2) unfolding lock_enter_inv[OF inv i]
    by (auto simp: Let_def tids_def locks_def ensure_thread_tids split: if_splits option.splits)
qed

lemma lock_resume_ok:
  assumes "state_ok s" "lock_resume tid l s = Inr (r, s')"
  shows "rag_inv s' \<and> locks s' = locks s \<and> tids s' = tids s"
proof -
  from assms have inv: "rag_inv s"
    unfolding state_ok_def by (auto simp: pre_init_lock_resume)
  have "rag_inv (set_request i None (s\<lparr>mutex_owner := m\<rparr>))" for i m
    using inv by (intro rag_inv_set_request) (simp_all add: in_range_def)
  then show ?thesis
    using assms(2) unfolding lock_resume_inv[OF inv]
    by (auto simp: tids_def locks_def split: option.splits)
qed

lemma unlock_ok:
  assumes "state_ok s" "unlock l s = Inr s'"
  shows "rag_inv s' \<and> locks s' = locks s \<and> tids s' = tids s"
proof -
  from assms have inv: "rag_inv s"
    unfolding state_ok_def by (auto simp: pre_init_unlock)
  have "rag_inv (set_assignment j None s)" for j
    using inv by (rule rag_inv_set_assignment) (simp add: in_range_def)
  then show ?thesis
    using assms(2) unfolding unlock_inv[OF inv]
    by (auto simp: tids_def locks_def pthread_mutex_unlock_def split: option.splits)
qed

lemma exec_ok:
  assumes "state_ok (fst c)" "exec e c = Inr c'"
  shows "rag_inv (fst c') \<and> tids (fst c') = tids (fst c) @ new_tids e (fst c) \<and>
     locks (fst c') = locks (fst c) @ new_locks e"
proof -
  obtain s w where c: "c = (s, w)" by (cases c)
  with assms(1) have ok: "state_ok s" by simp
  show ?thesis
  proof (cases e)
    case (Init l)
    with assms c init_lock_ok[OF ok, of l] show ?thesis by auto
  next
    case (Acquire tid l)
    with assms(2) c obtain r where "lock_enter tid l s = Inr (r, fst c')"
      by (auto simp: bnd_Inr_iff split: option.splits)
    from lock_enter_ok[OF ok this] c Acquire show ?thesis by simp
  next
    case (Wake tid)
    with assms(2) c obtain l r where "lock_resume tid l s = Inr (r, fst c')"
      by (auto simp: bnd_Inr_iff split: option.splits)
    from lock_resume_ok[OF ok this] c Wake show ?thesis by simp
  next
    case (Release tid l)
    with assms(2) c have "unlock l s = Inr (fst c')"
      by (auto simp: bnd_Inr_iff split: option.splits)
    from unlock_ok[OF ok this] c Release show ?thesis by simp
  qed
qed

lemma state_ok_initial: "state_ok initial"
  by (simp add: state_ok_def pre_init_def initial_def)

lemma run_append: "run (es @ fs) c = bnd (run es c) (run fs)"
proof (induction es arbitrary: c)
  case Nil
  then show ?case by simp
next
  case (Cons e es)
  then show ?case by (cases "exec e c") simp_all
qed





section \<open>Unfolding the model on concrete states\<close>

lemmas sync_defs = rag_readerWait_def rag_readerSignal_def rag_writerWait_def rag_writerSignal_def
  sem_wait_mutex_def sem_post_mutex_def sem_wait_mutexRw_def sem_post_mutexRw_def

lemmas store_defs = rag_createResource_def rag_createThread_def rag_addResource_def rag_addThread_def
  rag_getResource_def rag_getThread_def store_request_def store_assignment_def
  set_request_def set_assignment_def rag_setRequest_def rag_setAssignment_def
  rag_removeRequest_def rag_removeAssignment_def rag_isNewThread_def

lemmas check_defs = mark_thread_def mark_resource_def clear_travelled_def rag_checkForCycles_def
  rag_depthFirstSearch.simps

lemmas proto_defs = init_lock_def lock_def unlock_def lock_enter_def lock_resume_def
  pthread_mutex_init_def pthread_mutex_lock_def pthread_mutex_unlock_def

lemmas inv_defs = rag_inv_def sync_idle_def pointers_valid_def unmarked_def in_range_def

section \<open>The cycle detector resets its markers\<close>

lemma rag_readerSignal_graph:
  "rag_readerSignal s = Inr s' \<Longrightarrow> threads s' = threads s \<and> resources s' = resources s"
  by (auto simp: rag_readerSignal_def sem_wait_mutex_def sem_post_mutex_def sem_post_mutexRw_def
      Let_def split: if_splits)

text \<open>
  A call of the cycle check that no other call overlaps leaves the travelled
  marker of every thread node and of every resource node false, whether or
  not a cycle was found. The call does return, with the semaphores idle and
  every edge pointing into the graph, whatever the markers were before.
\<close>

lemma rag_checkForCycles_resets_travelled:
  "(rag_checkForCycles tid s = Inr (isCycle, s') \<longrightarrow> unmarked s') \<and>
   (sync_idle s \<and> pointers_valid s \<longrightarrow>
      rag_checkForCycles tid s = Inr (check_result tid s, clear_travelled s) \<and>
      unmarked (clear_travelled s))"
proof (intro conjI impI)
  assume "rag_checkForCycles tid s = Inr (isCycle, s')"
  then obtain s2 where "rag_readerSignal (clear_travelled s2) = Inr s'"
    by (auto simp: rag_checkForCycles_def bnd_Inr_iff Let_def)
  from rag_readerSignal_graph[OF this] unmarked_clear[of s2]
  show "unmarked s'" by (simp add: unmarked_def)
next
  assume "sync_idle s \<and> pointers_valid s"
  then show "rag_checkForCycles tid s = Inr (check_result tid s, clear_travelled s)"
    by (simp add: rag_checkForCycles_idle)
next
  show "unmarked (clear_travelled s)" by (rule unmarked_clear)
qed

lemma rag_checkForCycles_resets_travelled_example:
  "rag_checkForCycles 1 travelled_state = Inr (True, clear_travelled travelled_state) \<and>
   \<not> unmarked travelled_state \<and> unmarked (clear_travelled travelled_state) \<and>
   sync_idle travelled_state \<and> pointers_valid travelled_state"
proof -
  have r: "rag_checkForCycles 1 travelled_state = Inr (True, clear_travelled travelled_state)"
    by (simp add: travelled_state_def sync_defs store_defs check_defs)
  have h: "sync_idle travelled_state \<and> pointers_valid travelled_state"
    by (simp add: travelled_state_def inv_defs)
  have d: "\<not> unmarked travelled_state"
    by (simp add: travelled_state_def unmarked_def)
  from rag_checkForCycles_resets_travelled[of 1 travelled_state True "clear_travelled travelled_state"]
    r h d
  show ?thesis by simp
qed

text \<open>
  The steps of one call, run in sequence, are the call: they end in the
  result and the state that \<open>rag_checkForCycles\<close> returns.
\<close>

lemma check_steps_add:
  "check_steps (m + n) tid c = bnd (check_steps m tid c) (check_steps n tid)"
proof (induction m arbitrary: c)
  case 0
  then show ?case by simp
next
  case (Suc m)
  then show ?case by (cases "check_step tid (fst c) (snd c)") simp_all
qed

lemma check_steps_dfs:
  "rag_depthFirstSearch p s = Inr (b, s') \<Longrightarrow>
     \<exists>n. check_steps n tid (Search p, s) = Inr (Reset b, s')"
proof (induction p s rule: rag_depthFirstSearch.induct)
  case (1 p s)
  have one: "check_steps (Suc 0) tid (Search p, s) = Inr (Reset b, s')"
    if "check_step tid (Search p) s = Inr (Reset b, s')"
    using that by simp
  show ?case
  proof (cases p)
    case None
    with "1.prems" have "check_step tid (Search p) s = Inr (Reset b, s')"
      by (simp add: rag_depthFirstSearch.simps)
    from one[OF this] show ?thesis by blast
  next
    case (Some i)
    show ?thesis
    proof (cases "i < length (threads s) \<and> \<not> t_travelled (threads s ! i) \<and>
        (\<exists>j. t_request (threads s ! i) = Some j \<and> j < length (resources s) \<and>
           \<not> r_travelled (resources s ! j))")
      case True
      then obtain j where j: "i < length (threads s)" "\<not> t_travelled (threads s ! i)"
        "t_request (threads s ! i) = Some j" "j < length (resources s)"
        "\<not> r_travelled (resources s ! j)" by blast
      let ?s2 = "mark_resource j (mark_thread i s)"
      let ?p = "r_assignment (resources s ! j)"
      from "1.prems" Some j have "rag_depthFirstSearch ?p ?s2 = Inr (b, s')"
        by (subst (asm) rag_depthFirstSearch.simps) simp
      from "1.IH"[OF Some _ _ j(3) _ _ this] j obtain n where
        n: "check_steps n tid (Search ?p, ?s2) = Inr (Reset b, s')" by auto
      have "check_steps (Suc (Suc 0) + n) tid (Search p, s) = Inr (Reset b, s')"
        unfolding check_steps_add using Some j n by (simp add: mark_thread_def)
      then show ?thesis by blast
    next
      case False
      with "1.prems" Some have "check_step tid (Search p) s = Inr (Reset b, s') \<or>
          (\<exists>j. check_step tid (Search p) s = Inr (Search_res j, mark_thread i s) \<and>
             check_step tid (Search_res j) (mark_thread i s) = Inr (Reset b, s'))"
        by (subst (asm) rag_depthFirstSearch.simps)
           (auto split: if_splits option.splits simp: mark_thread_def)
      then show ?thesis
      proof
        assume "check_step tid (Search p) s = Inr (Reset b, s')"
        from one[OF this] show ?thesis by blast
      next
        assume "\<exists>j. check_step tid (Search p) s = Inr (Search_res j, mark_thread i s) \<and>
             check_step tid (Search_res j) (mark_thread i s) = Inr (Reset b, s')"
        then obtain j where "check_step tid (Search p) s = Inr (Search_res j, mark_thread i s)"
          "check_step tid (Search_res j) (mark_thread i s) = Inr (Reset b, s')" by blast
        then have "check_steps (Suc (Suc 0)) tid (Search p, s) = Inr (Reset b, s')" by simp
        then show ?thesis by blast
      qed
    qed
  qed
qed

lemma check_steps_call:
  assumes "rag_checkForCycles tid s = Inr (b, s')"
  shows "\<exists>n. check_steps n tid (Before, s) = Inr (Returned b, s')"
proof -
  from assms obtain s1 s2 where s: "rag_readerWait s = Inr s1"
    "rag_depthFirstSearch (rag_getThread tid s1) s1 = Inr (b, s2)"
    "rag_readerSignal (clear_travelled s2) = Inr s'"
    by (auto simp: rag_checkForCycles_def bnd_Inr_iff Let_def)
  from check_steps_dfs[OF s(2), of tid] obtain n where
    n: "check_steps n tid (Search (rag_getThread tid s1), s1) = Inr (Reset b, s2)" by blast
  have "check_steps (Suc 0 + (n + Suc (Suc 0))) tid (Before, s) = Inr (Returned b, s')"
    unfolding check_steps_add using s(1,3) n by simp
  then show ?thesis by blast
qed

lemma both_requesting_reached:
  "bnd (init_lock 10 initial) (\<lambda>s1. bnd (init_lock 20 s1) (\<lambda>s2.
     bnd (request_phase 1 10 s2) (request_phase 2 20))) = Inr both_requesting"
  by (simp add: initial_def both_requesting_def request_phase_def sync_defs store_defs proto_defs)

text \<open>
  C6 on the code: the markers are shared by all calls, and the traversal
  writes them inside a reader section, which does not keep a second call out.
  Threads 1 and 2 are both inside \<open>lock\<close>, on different locks, and call the
  cycle check. Both pass \<open>rag_readerWait\<close>; thread 1 traverses, runs its
  reset loops, and before its \<open>rag_readerSignal\<close> thread 2 marks its start
  node. Thread 1's call returns (no cycle) with the marker of the node of
  thread 2 set.
\<close>

theorem overlapping_checks_leave_marker:
  "check_sched_run [0, 1, 0, 0, 0, 0, 1, 0] (both_requesting, [(1, Before), (2, Before)]) =
     Inr (both_requesting
            \<lparr>threads := [\<lparr>t_request = Some 0, t_tid = 1, t_travelled = False\<rparr>,
                         \<lparr>t_request = Some 1, t_tid = 2, t_travelled = True\<rparr>],
             assign_mutexRw := 0, assign_readers := 1\<rparr>,
          [(1, Returned False), (2, Search_res 1)]) \<and>
   \<not> unmarked (both_requesting
            \<lparr>threads := [\<lparr>t_request = Some 0, t_tid = 1, t_travelled = False\<rparr>,
                         \<lparr>t_request = Some 1, t_tid = 2, t_travelled = True\<rparr>],
             assign_mutexRw := 0, assign_readers := 1\<rparr>)"
  by (simp add: both_requesting_def sync_defs rag_getThread_def mark_thread_def mark_resource_def
      clear_travelled_def unmarked_def)

section \<open>The cycle detector walks one path\<close>






section \<open>A rejected acquire\<close>

lemma rejected_acquire_effect:
  assumes "rag_inv s" and "request_phase tid l s = Inr s3"
    and "rag_checkForCycles tid s3 = Inr (True, s4)"
    and i: "rag_getThread tid (ensure_thread tid s) = Some i"
  shows "lock_enter tid l s =
      Inr (Some 0, set_request i None (set_request i (rag_getResource l s) (ensure_thread tid s)))"
    and "lock tid l s =
      Inr (0, set_request i None (set_request i (rag_getResource l s) (ensure_thread tid s)))"
proof -
  let ?s3 = "set_request i (rag_getResource l s) (ensure_thread tid s)"
  have s3: "s3 = ?s3" using assms(2) request_phase_inv[OF assms(1) i] by simp
  have inv3: "rag_inv ?s3" using assms(1) by (rule rag_inv_request_phase)
  have "rag_checkForCycles tid ?s3 = Inr (True, s4)" using assms(3) unfolding s3 .
  then have c: "check_result tid ?s3" unfolding rag_checkForCycles_inv[OF inv3] by auto
  show e: "lock_enter tid l s = Inr (Some 0, set_request i None ?s3)"
    unfolding lock_enter_inv[OF assms(1) i] using c by (simp add: Let_def)
  then show "lock tid l s = Inr (0, set_request i None ?s3)" by (simp add: lock_enter_resume)
qed

lemma new_thread_unassigned:
  assumes "pointers_valid s" and "\<not> thread_known (threads s) tid"
    and i: "rag_getThread tid (ensure_thread tid s) = Some i"
    and j: "j < length (resources s)"
  shows "r_assignment (resources s ! j) \<noteq> Some i"
proof
  assume "r_assignment (resources s ! j) = Some i"
  with assms(1) j have il: "i < length (threads s)" by (rule pointers_valid_assignment)
  from i have "t_tid (threads (ensure_thread tid s) ! i) = tid" by (rule getThread_tid)
  with il assms(2) have "t_tid (threads s ! i) = tid"
    by (simp add: ensure_thread_def nth_append)
  with il have "tid \<in> set (map t_tid (threads s))"
    using nth_mem[of i "map t_tid (threads s)"] by simp
  with assms(2) show False by (simp add: thread_known_set)
qed

text \<open>
  C4: if the cycle check reports a cycle, \<open>lock\<close> clears the calling thread's
  request edge and returns 0 from the part of the function that precedes the
  wait on the resource's mutex, which stays as it is. Afterwards the thread
  has no request edge, and the resource collection, with every assignment
  edge, is as before the call; for a caller without assignment edge from the
  resource before the call (to ask again for a lock that one holds is a
  programmer error and not part of the interface) there is none afterwards.
\<close>

theorem rejected_acquire_leaves_graph:
  assumes "rag_inv s" and "request_phase tid l s = Inr s3"
    and "rag_checkForCycles tid s3 = Inr (True, s4)"
    and "\<not> assigned_to tid l s"
  shows "\<exists>s' i. lock tid l s = Inr (0, s') \<and> lock_enter tid l s = Inr (Some 0, s') \<and>
    rag_getThread tid s' = Some i \<and> i < length (threads s') \<and> t_request (threads s' ! i) = None \<and>
    \<not> assigned_to tid l s' \<and>
    resources s' = resources s \<and> mutex_owner s' = mutex_owner s"
proof -
  obtain i where i: "rag_getThread tid (ensure_thread tid s) = Some i"
    using getThread_ensure by blast
  let ?s' = "set_request i None (set_request i (rag_getResource l s) (ensure_thread tid s))"
  note eff = rejected_acquire_effect[OF assms(1-3) i]
  have il: "i < length (threads ?s')" using getThread_less[OF i] by simp
  then have req: "t_request (threads ?s' ! i) = None" by (simp add: set_request_nth)
  have t: "rag_getThread tid ?s' = Some i" using i by simp
  have "\<not> assigned_to tid l ?s'"
  proof (cases "rag_getResource l s")
    case None
    then show ?thesis by (simp add: assigned_to_def)
  next
    case (Some j)
    then have jl: "j < length (resources s)" by (rule getResource_less)
    have "r_assignment (resources s ! j) \<noteq> Some i"
    proof (cases "thread_known (threads s) tid")
      case True
      with i have "rag_getThread tid s = Some i" by (simp add: ensure_thread_def)
      with assms(4) Some show ?thesis by (simp add: assigned_to_def)
    next
      case False
      from assms(1) have "pointers_valid s" by (simp add: rag_inv_def)
      then show ?thesis using False i jl by (rule new_thread_unassigned)
    qed
    with Some t show ?thesis by (simp add: assigned_to_def)
  qed
  with eff il req t show ?thesis by (intro exI[of _ ?s'] exI[of _ i]) simp
qed

theorem rejected_acquire_leaves_graph_witness:
  "rag_inv crossed \<and> request_phase 2 10 crossed = Inr (set_request 1 (Some 0) crossed) \<and>
   rag_checkForCycles 2 (set_request 1 (Some 0) crossed) = Inr (True, set_request 1 (Some 0) crossed) \<and>
   \<not> assigned_to 2 10 crossed \<and>
   (\<exists>s' i. lock 2 10 crossed = Inr (0, s') \<and> lock_enter 2 10 crossed = Inr (Some 0, s') \<and>
      rag_getThread 2 s' = Some i \<and> i < length (threads s') \<and> t_request (threads s' ! i) = None \<and>
      \<not> assigned_to 2 10 s' \<and>
      resources s' = resources crossed \<and> mutex_owner s' = mutex_owner crossed)"
proof -
  have h1: "rag_inv crossed"
    by (simp add: crossed_def inv_defs)
  have h2: "request_phase 2 10 crossed = Inr (set_request 1 (Some 0) crossed)"
    by (simp add: crossed_def request_phase_def sync_defs store_defs)
  have h3: "rag_checkForCycles 2 (set_request 1 (Some 0) crossed) =
      Inr (True, set_request 1 (Some 0) crossed)"
    by (simp add: crossed_def sync_defs store_defs check_defs)
  have h4: "\<not> assigned_to 2 10 crossed"
    by (simp add: crossed_def assigned_to_def rag_getResource_def rag_getThread_def)
  from rejected_acquire_leaves_graph[OF h1 h2 h3 h4] h1 h2 h3 h4 show ?thesis by blast
qed

text \<open>
  The excluded call: a thread that asks again for the lock it holds meets its
  own assignment edge, is rejected, and the edge stays. Thread 1 takes lock 10
  and asks for it again.
\<close>

lemma holding_reached: "bnd (init_lock 10 initial) (lock 1 10) = Inr (1, holding)"
proof -
  have "init_lock 10 initial = Inr one_lock"
    by (simp add: initial_def one_lock_def sync_defs store_defs proto_defs)
  moreover have "lock 1 10 one_lock = Inr (1, holding)"
    by (simp add: one_lock_def holding_def sync_defs store_defs check_defs proto_defs)
  ultimately show ?thesis by simp
qed

lemma holder_reacquire_rejected:
  "assigned_to 1 10 holding \<and> lock 1 10 holding = Inr (0, holding)"
  by (simp add: holding_def assigned_to_def sync_defs store_defs check_defs proto_defs)

section \<open>A granted acquire\<close>

text \<open>
  C5: if the cycle check reports no cycle, \<open>lock\<close> sets the assignment edge
  from the resource to the calling thread, then waits on the resource's
  mutex, then clears the thread's request edge and returns 1, in this order.
  For a registered lock: at the wait the graph has both the new assignment
  edge and the request edge; if the mutex is taken the call goes no further;
  if it is free the call takes it, clears the request edge and returns 1.
\<close>

theorem granted_acquire_order:
  assumes "rag_inv s" and "request_phase tid l s = Inr s3"
    and "rag_checkForCycles tid s3 = Inr (False, s4)" and "rag_getResource l s = Some j"
  shows "lock tid l s =
      bnd (rag_setAssignment tid l s4) (\<lambda>s5.
      bnd (pthread_mutex_lock tid l s5) (\<lambda>s6.
      bnd (rag_removeRequest tid s6) (\<lambda>s7. Inr (1, s7)))) \<and>
    (\<exists>i s5. rag_getThread tid s4 = Some i \<and> i < length (threads s4) \<and>
       rag_setAssignment tid l s4 = Inr s5 \<and> lock_enter tid l s = Inr (None, s5) \<and>
       r_assignment (resources s5 ! j) = Some i \<and> t_request (threads s5 ! i) = Some j \<and>
       mutex_owner s5 = mutex_owner s \<and>
       (mutex_owner s l \<noteq> None \<longrightarrow> lock tid l s = Inl Blocked) \<and>
       (mutex_owner s l = None \<longrightarrow>
          pthread_mutex_lock tid l s5 = Inr (s5\<lparr>mutex_owner := (mutex_owner s)(l := Some tid)\<rparr>) \<and>
          lock tid l s =
            Inr (1, set_request i None (s5\<lparr>mutex_owner := (mutex_owner s)(l := Some tid)\<rparr>))))"
proof
  show "lock tid l s =
      bnd (rag_setAssignment tid l s4) (\<lambda>s5.
      bnd (pthread_mutex_lock tid l s5) (\<lambda>s6.
      bnd (rag_removeRequest tid s6) (\<lambda>s7. Inr (1, s7))))"
    unfolding lock_split using assms(2,3) by simp
next
  obtain i where i: "rag_getThread tid (ensure_thread tid s) = Some i"
    using getThread_ensure by blast
  let ?s3 = "set_request i (rag_getResource l s) (ensure_thread tid s)"
  have s3: "s3 = ?s3" using assms(2) request_phase_inv[OF assms(1) i] by simp
  have inv3: "rag_inv ?s3" using assms(1) by (rule rag_inv_request_phase)
  have "rag_checkForCycles tid ?s3 = Inr (False, s4)" using assms(3) unfolding s3 .
  then have c: "\<not> check_result tid ?s3" and s4: "s4 = ?s3"
    unfolding rag_checkForCycles_inv[OF inv3] by auto
  let ?s5 = "set_assignment j (Some i) ?s3"
  have il: "i < length (threads ?s3)" using getThread_less[OF i] by simp
  have jl: "j < length (resources ?s3)" using getResource_less[OF assms(4)] by simp
  have t4: "rag_getThread tid s4 = Some i" using i by (simp add: s4)
  have a: "rag_setAssignment tid l s4 = Inr ?s5"
    unfolding s4 rag_setAssignment_inv[OF inv3] using i assms(4) by simp
  have e: "lock_enter tid l s = Inr (None, ?s5)"
    unfolding lock_enter_inv[OF assms(1) i] using c assms(4) by (simp add: Let_def)
  have inv5: "rag_inv ?s5"
    using inv3 by (rule rag_inv_set_assignment) (use il in \<open>simp add: in_range_def\<close>)
  have t5: "rag_getThread tid ?s5 = Some i" using i by simp
  have r: "lock tid l s = lock_resume tid l ?s5"
    using e by (simp add: lock_enter_resume)
  have edges: "r_assignment (resources ?s5 ! j) = Some i" "t_request (threads ?s5 ! i) = Some j"
    using il jl assms(4) by (simp_all add: set_assignment_nth set_request_nth)
  have m5: "mutex_owner ?s5 = mutex_owner s" by simp
  have blocked: "lock tid l s = Inl Blocked" if "mutex_owner s l \<noteq> None"
    unfolding r lock_resume_inv[OF inv5] using that by (auto simp: m5)
  have free: "pthread_mutex_lock tid l ?s5 = Inr (?s5\<lparr>mutex_owner := (mutex_owner s)(l := Some tid)\<rparr>) \<and>
      lock tid l s = Inr (1, set_request i None (?s5\<lparr>mutex_owner := (mutex_owner s)(l := Some tid)\<rparr>))"
    if "mutex_owner s l = None"
    unfolding r lock_resume_inv[OF inv5] using that t5
    by (simp add: m5 pthread_mutex_lock_def)
  show "\<exists>i s5. rag_getThread tid s4 = Some i \<and> i < length (threads s4) \<and>
       rag_setAssignment tid l s4 = Inr s5 \<and> lock_enter tid l s = Inr (None, s5) \<and>
       r_assignment (resources s5 ! j) = Some i \<and> t_request (threads s5 ! i) = Some j \<and>
       mutex_owner s5 = mutex_owner s \<and>
       (mutex_owner s l \<noteq> None \<longrightarrow> lock tid l s = Inl Blocked) \<and>
       (mutex_owner s l = None \<longrightarrow>
          pthread_mutex_lock tid l s5 = Inr (s5\<lparr>mutex_owner := (mutex_owner s)(l := Some tid)\<rparr>) \<and>
          lock tid l s =
            Inr (1, set_request i None (s5\<lparr>mutex_owner := (mutex_owner s)(l := Some tid)\<rparr>)))"
    using t4 il a e edges m5 blocked free
    by (intro exI[of _ i] exI[of _ ?s5]) (simp add: s4)
qed

theorem granted_acquire_order_witness:
  "rag_inv one_lock \<and> request_phase 1 10 one_lock = Inr (set_request 0 (Some 0) (ensure_thread 1 one_lock)) \<and>
   rag_checkForCycles 1 (set_request 0 (Some 0) (ensure_thread 1 one_lock)) =
     Inr (False, set_request 0 (Some 0) (ensure_thread 1 one_lock)) \<and>
   rag_getResource 10 one_lock = Some 0 \<and> mutex_owner one_lock 10 = None \<and>
   lock_enter 1 10 one_lock = Inr (None, entering) \<and> lock 1 10 one_lock = Inr (1, holding) \<and>
   rag_inv holding \<and> rag_getResource 10 holding = Some 0 \<and> mutex_owner holding 10 \<noteq> None \<and>
   lock 2 10 holding = Inl Blocked \<and> lock_enter 2 10 holding = Inr (None, contended)"
proof -
  let ?s3 = "set_request 0 (Some 0) (ensure_thread 1 one_lock)"
  have h1: "rag_inv one_lock" by (simp add: one_lock_def inv_defs)
  have h2: "request_phase 1 10 one_lock = Inr ?s3"
    by (simp add: one_lock_def request_phase_def ensure_thread_def new_thread_def sync_defs store_defs)
  have h3: "rag_checkForCycles 1 ?s3 = Inr (False, ?s3)"
    by (simp add: one_lock_def ensure_thread_def new_thread_def sync_defs store_defs check_defs)
  have h4: "rag_getResource 10 one_lock = Some 0" by (simp add: one_lock_def rag_getResource_def)
  have h5: "mutex_owner one_lock 10 = None" by (simp add: one_lock_def)
  have e: "lock_enter 1 10 one_lock = Inr (None, entering)"
    by (simp add: one_lock_def entering_def sync_defs store_defs check_defs proto_defs)
  from granted_acquire_order[OF h1 h2 h3 h4] h5 e
  have "lock 1 10 one_lock = Inr (1, set_request 0 None (entering\<lparr>mutex_owner := (mutex_owner one_lock)(10 := Some 1)\<rparr>))"
    by (auto simp: ensure_thread_def one_lock_def set_request_def rag_getThread_def new_thread_def)
  then have l1: "lock 1 10 one_lock = Inr (1, holding)"
    by (simp add: entering_def holding_def one_lock_def set_request_def)
  let ?t3 = "set_request 1 (Some 0) (ensure_thread 2 holding)"
  have g1: "rag_inv holding" by (simp add: holding_def inv_defs)
  have g2: "request_phase 2 10 holding = Inr ?t3"
    by (simp add: holding_def request_phase_def ensure_thread_def new_thread_def sync_defs store_defs)
  have g3: "rag_checkForCycles 2 ?t3 = Inr (False, ?t3)"
    by (simp add: holding_def ensure_thread_def new_thread_def sync_defs store_defs check_defs)
  have g4: "rag_getResource 10 holding = Some 0" by (simp add: holding_def rag_getResource_def)
  have g5: "mutex_owner holding 10 \<noteq> None" by (simp add: holding_def)
  have e2: "lock_enter 2 10 holding = Inr (None, contended)"
    by (simp add: holding_def contended_def sync_defs store_defs check_defs proto_defs)
  from granted_acquire_order[OF g1 g2 g3 g4] g5
  have l2: "lock 2 10 holding = Inl Blocked" by blast
  from h1 h2 h3 h4 h5 e l1 g1 g4 g5 l2 e2 show ?thesis by simp
qed

section \<open>Registration of locks and threads\<close>






section \<open>Thread nodes\<close>



section \<open>Release\<close>

text \<open>
  C8: \<open>unlock\<close> of a registered lock clears the assignment edge of the
  lock's resource node and releases the lock's mutex, and changes nothing
  else: the thread collection with every request edge, every other resource
  node, the lock and the marker of the node itself, and the other globals are
  as before.
\<close>

theorem unlock_frame:
  assumes "sync_idle s" and "rag_getResource l s = Some j"
  shows "j < length (resources s) \<and> r_lock (resources s ! j) = l \<and>
    unlock l s =
      Inr (s\<lparr>resources := (resources s)[j := (resources s ! j)\<lparr>r_assignment := None\<rparr>],
             mutex_owner := (mutex_owner s)(l := None)\<rparr>)"
proof -
  have j: "j < length (resources s)" using assms(2) by (rule getResource_less)
  moreover have "r_lock (resources s ! j) = l" using assms(2) by (rule getResource_lock)
  moreover have "unlock l s =
      Inr (s\<lparr>resources := (resources s)[j := (resources s ! j)\<lparr>r_assignment := None\<rparr>],
             mutex_owner := (mutex_owner s)(l := None)\<rparr>)"
    using assms j
    by (simp add: unlock_def rag_removeAssignment_idle store_assignment_Some
        pthread_mutex_unlock_def set_assignment_def)
  ultimately show ?thesis by simp
qed

theorem unlock_frame_witness:
  "sync_idle contended \<and> rag_getResource 10 contended = Some 0 \<and>
   unlock 10 contended =
     Inr (contended\<lparr>resources := [\<lparr>r_assignment = None, r_lock = 10, r_travelled = False\<rparr>],
            mutex_owner := (mutex_owner contended)(10 := None)\<rparr>) \<and>
   threads contended = [\<lparr>t_request = None, t_tid = 1, t_travelled = False\<rparr>,
                        \<lparr>t_request = Some 0, t_tid = 2, t_travelled = False\<rparr>]"
proof -
  have h: "sync_idle contended" "rag_getResource 10 contended = Some 0"
    by (simp_all add: contended_def sync_idle_def rag_getResource_def)
  from unlock_frame[OF h] h show ?thesis by (simp add: contended_def)
qed

section \<open>Lookups that find no node\<close>

lemma check_result_no_request:
  assumes "unmarked s" "rag_getThread tid s = Some i" "t_request (threads s ! i) = None"
  shows "\<not> check_result tid s"
proof -
  have "i < length (threads s)" using assms(2) by (rule getThread_less)
  with assms(3) have "out_edge s (Thread i) = None" by simp
  moreover have "\<not> marked s (Thread i)"
    using assms(1) by (auto simp: unmarked_def list_all_length)
  ultimately show ?thesis using assms(2) by (simp add: check_result_def finds_dead_end)
qed

lemma lock_unregistered:
  assumes "rag_inv s" "rag_getResource l s = None"
  shows "lock tid l s = Inl NullDeref"
proof -
  obtain i where i: "rag_getThread tid (ensure_thread tid s) = Some i"
    using getThread_ensure by blast
  let ?s3 = "set_request i None (ensure_thread tid s)"
  have "rag_inv ?s3" using rag_inv_request_phase[OF assms(1), of i l tid] assms(2) by simp
  then have "unmarked ?s3" by (simp add: rag_inv_def)
  moreover have "rag_getThread tid ?s3 = Some i" using i by simp
  moreover have "t_request (threads ?s3 ! i) = None"
    using getThread_less[OF i] by (simp add: set_request_nth)
  ultimately have "\<not> check_result tid ?s3" by (rule check_result_no_request)
  then have "lock_enter tid l s = Inl NullDeref"
    unfolding lock_enter_inv[OF assms(1) i] using assms(2) by (simp add: Let_def)
  then show ?thesis by (simp add: lock_enter_resume)
qed

lemma lock_registered:
  assumes "rag_inv s" "rag_getResource l s = Some j"
  shows "(\<exists>r s'. lock tid l s = Inr (r, s')) \<or> lock tid l s = Inl Blocked"
proof -
  obtain i where i: "rag_getThread tid (ensure_thread tid s) = Some i"
    using getThread_ensure by blast
  let ?s3 = "set_request i (Some j) (ensure_thread tid s)"
  have inv3: "rag_inv ?s3" using rag_inv_request_phase[OF assms(1), of i l tid] assms(2) by simp
  show ?thesis
  proof (cases "check_result tid ?s3")
    case True
    then have "lock_enter tid l s = Inr (Some 0, set_request i None ?s3)"
      unfolding lock_enter_inv[OF assms(1) i] using assms(2) by (simp add: Let_def)
    then show ?thesis by (simp add: lock_enter_resume)
  next
    case False
    let ?s5 = "set_assignment j (Some i) ?s3"
    from False have e: "lock_enter tid l s = Inr (None, ?s5)"
      unfolding lock_enter_inv[OF assms(1) i] using assms(2) by (simp add: Let_def)
    have "rag_inv ?s5"
      using inv3 by (rule rag_inv_set_assignment)
        (use getThread_less[OF i] in \<open>simp add: in_range_def\<close>)
    from lock_resume_inv[OF this, of tid l] i e show ?thesis
      by (cases "mutex_owner s l") (simp_all add: lock_enter_resume)
  qed
qed

text \<open>
  C10, as stated, fails for \<open>rag_setRequest\<close>: for a lock without resource
  node it does not dereference the null result of the resource lookup but
  stores it, and returns. Thread 2, with a request edge to the node of lock
  10, asks for the unregistered lock 20 and is left without request edge.
\<close>

theorem setRequest_stores_not_found:
  "rag_getResource 20 contended = None \<and> rag_getThread 2 contended = Some 1 \<and>
   t_request (threads contended ! 1) = Some 0 \<and>
   rag_setRequest 2 20 contended = Inr (set_request 1 None contended)"
  by (simp add: contended_def sync_defs store_defs)

text \<open>
  C10, amended: between calls, for a lock with a resource node the lookups
  in \<open>rag_setAssignment\<close> and \<open>rag_removeAssignment\<close> find the node and
  the stores through it succeed, \<open>unlock\<close> returns, and \<open>lock\<close> returns
  or waits but does not fault; \<open>rag_setRequest\<close> and \<open>rag_removeRequest\<close>
  dereference only the thread node, which exists for a registered thread. For
  a lock without resource node \<open>rag_setAssignment\<close> and
  \<open>rag_removeAssignment\<close>, and with them \<open>lock\<close> and \<open>unlock\<close>,
  dereference the null result; no error value is returned.
  \<open>rag_setRequest\<close> stores the null result as the thread's request edge.
\<close>

theorem lookups_found_or_null:
  assumes "rag_inv s"
  shows "(rag_getResource l s = Some j \<longrightarrow>
       j < length (resources s) \<and>
       rag_setAssignment tid l s = Inr (set_assignment j (rag_getThread tid s) s) \<and>
       rag_removeAssignment l s = Inr (set_assignment j None s) \<and>
       unlock l s = Inr (pthread_mutex_unlock l (set_assignment j None s)) \<and>
       ((\<exists>r s'. lock tid l s = Inr (r, s')) \<or> lock tid l s = Inl Blocked)) \<and>
    (rag_getThread tid s = Some i \<longrightarrow>
       i < length (threads s) \<and>
       rag_setRequest tid l s = Inr (set_request i (rag_getResource l s) s) \<and>
       rag_removeRequest tid s = Inr (set_request i None s)) \<and>
    (rag_getResource l s = None \<longrightarrow>
       rag_setAssignment tid l s = Inl NullDeref \<and>
       rag_removeAssignment l s = Inl NullDeref \<and>
       unlock l s = Inl NullDeref \<and>
       lock tid l s = Inl NullDeref)"
proof (intro conjI impI)
  assume j: "rag_getResource l s = Some j"
  then show "j < length (resources s)" by (rule getResource_less)
  from j show "rag_setAssignment tid l s = Inr (set_assignment j (rag_getThread tid s) s)"
    by (simp add: rag_setAssignment_inv[OF assms])
  from j show "rag_removeAssignment l s = Inr (set_assignment j None s)"
    by (simp add: rag_removeAssignment_inv[OF assms])
  from j show "unlock l s = Inr (pthread_mutex_unlock l (set_assignment j None s))"
    by (simp add: unlock_inv[OF assms])
  from assms j show "(\<exists>r s'. lock tid l s = Inr (r, s')) \<or> lock tid l s = Inl Blocked"
    by (rule lock_registered)
next
  assume i: "rag_getThread tid s = Some i"
  then show "i < length (threads s)" by (rule getThread_less)
  from i show "rag_setRequest tid l s = Inr (set_request i (rag_getResource l s) s)"
    by (simp add: rag_setRequest_inv[OF assms])
  from i show "rag_removeRequest tid s = Inr (set_request i None s)"
    by (simp add: rag_removeRequest_inv[OF assms])
next
  assume n: "rag_getResource l s = None"
  then show "rag_setAssignment tid l s = Inl NullDeref"
    by (simp add: rag_setAssignment_inv[OF assms])
  from n show "rag_removeAssignment l s = Inl NullDeref"
    by (simp add: rag_removeAssignment_inv[OF assms])
  from n show "unlock l s = Inl NullDeref"
    by (simp add: unlock_inv[OF assms])
  from assms n show "lock tid l s = Inl NullDeref" by (rule lock_unregistered)
qed

theorem lookups_found_or_null_witness:
  "rag_inv holding \<and> rag_getResource 10 holding = Some 0 \<and> rag_getThread 1 holding = Some 0 \<and>
   rag_getResource 20 holding = None \<and>
   unlock 10 holding = Inr (pthread_mutex_unlock 10 (set_assignment 0 None holding)) \<and>
   rag_removeRequest 1 holding = Inr (set_request 0 None holding) \<and>
   rag_setAssignment 1 20 holding = Inl NullDeref \<and> unlock 20 holding = Inl NullDeref \<and>
   lock 1 20 holding = Inl NullDeref"
proof -
  have h: "rag_inv holding" by (simp add: holding_def inv_defs)
  have a: "rag_getResource 10 holding = Some 0" "rag_getThread 1 holding = Some 0"
    "rag_getResource 20 holding = None"
    by (simp_all add: holding_def rag_getResource_def rag_getThread_def)
  from lookups_found_or_null[OF h, of 10 0 1 0] a(1,2)
  have b: "unlock 10 holding = Inr (pthread_mutex_unlock 10 (set_assignment 0 None holding))"
    "rag_removeRequest 1 holding = Inr (set_request 0 None holding)"
    by simp_all
  from lookups_found_or_null[OF h, of 20 0 1 0] a(3)
  have c: "rag_setAssignment 1 20 holding = Inl NullDeref" "unlock 20 holding = Inl NullDeref"
    "lock 1 20 holding = Inl NullDeref"
    by simp_all
  from h a b c show ?thesis by simp
qed

section \<open>The admission scheme\<close>

lemma readerWait_body: "stmts_exec readerWait_body s = rag_readerWait s"
  by (cases "sem_wait_mutex s")
     (auto simp: readerWait_body_def rag_readerWait_def Let_def sem_wait_mutexRw_def)

lemma readerSignal_body: "stmts_exec readerSignal_body s = rag_readerSignal s"
  by (cases "sem_wait_mutex s")
     (auto simp: readerSignal_body_def rag_readerSignal_def Let_def)

lemma writerWait_body: "stmts_exec writerWait_body s = rag_writerWait s"
  by (cases "sem_wait_mutex s") (simp_all add: writerWait_body_def rag_writerWait_def)

lemma writerSignal_body: "stmts_exec writerSignal_body s = Inr (rag_writerSignal s)"
  by (simp add: writerSignal_body_def rag_writerSignal_def)

lemma rag_writerWait_gate:
  "rag_writerWait s = Inr s' \<Longrightarrow>
     assign_mutexRw s' = assign_mutexRw s \<and> assign_mutex s' = assign_mutex s - 1"
  by (auto simp: rag_writerWait_def sem_wait_mutex_def split: if_splits)

text \<open>
  C3 on the code: \<open>rag_writerWait\<close> waits on \<open>assign_mutex\<close>, the mutex of
  the reader count, and not on \<open>assign_mutexRw\<close>, the gate that the first
  reader claims. With the semaphores as created, a reader (thread 0) runs
  \<open>rag_readerWait\<close> to its end and a writer (thread 1) then runs
  \<open>rag_writerWait\<close>: the writer is admitted while the reader count is 1
  and the gate is taken by the reader.
\<close>

theorem writer_admitted_beside_reader:
  "sched_run [0, 0, 0, 0, 1] (created, [reader, writer]) =
     Inr (created\<lparr>assign_mutex := 0, assign_mutexRw := 0, assign_readers := 1\<rparr>,
          [Read_section # readerSignal_body, Write_section # writerSignal_body]) \<and>
   in_read_section (Read_section # readerSignal_body) \<and>
   in_write_section (Write_section # writerSignal_body)"
  by (simp add: created_def initial_def reader_def writer_def readerWait_body_def
      writerWait_body_def sem_wait_mutex_def sem_post_mutex_def sem_wait_mutexRw_def
      in_read_section_def in_write_section_def)

section \<open>Cycles in reachable graphs\<close>

lemmas run_defs = start_def initial_def sync_defs store_defs check_defs proto_defs

lemma contended_run:
  "run [Init 10, Acquire 1 10, Wake 1, Acquire 2 10] start =
     Inr (contended, (\<lambda>_. None)(2 := Some 10))"
  by (simp add: run_defs contended_def)

lemma deadlocked_run:
  "run [Init 10, Init 20, Acquire 2 10, Wake 2, Acquire 1 10, Release 2 10, Wake 1,
        Acquire 2 20, Wake 2, Acquire 1 20, Acquire 2 10] start =
     Inr (deadlocked, (\<lambda>_. None)(1 := Some 20, 2 := Some 10))"
  by (simp add: run_defs deadlocked_def)

text \<open>
  C1 on the code: \<open>lock\<close> sets the assignment edge before it waits for the
  mutex and clears the request edge only after the wait. Lock 10 is
  initialized, thread 1 takes it, thread 2 asks for it: the cycle check passes,
  the assignment edge of the resource is redirected to thread 2, and thread 2
  is suspended on the mutex that thread 1 holds. The graph of this reachable
  configuration has the cycle from thread 2 over its request edge to the
  resource and over the assignment edge back.
\<close>

theorem suspended_acquirer_closes_cycle:
  "run [Init 10, Acquire 1 10, Wake 1, Acquire 2 10] start =
     Inr (contended, (\<lambda>_. None)(2 := Some 10)) \<and>
   reachable (contended, (\<lambda>_. None)(2 := Some 10)) \<and>
   walk contended (Thread 1) 1 = Some (Resource 0) \<and>
   walk contended (Thread 1) 2 = Some (Thread 1) \<and>
   has_cycle contended \<and>
   mutex_owner contended 10 = Some 1 \<and>
   exec (Wake 2) (contended, (\<lambda>_. None)(2 := Some 10)) = Inl Blocked"
proof -
  have w: "walk contended (Thread 1) 1 = Some (Resource 0)"
    "walk contended (Thread 1) (Suc 1) = Some (Thread 1)"
    by (simp_all add: contended_def)
  then have "has_cycle contended" unfolding has_cycle_def by blast
  moreover have "reachable (contended, (\<lambda>_. None)(2 := Some 10))"
    unfolding reachable_def using contended_run by blast
  moreover have "exec (Wake 2) (contended, (\<lambda>_. None)(2 := Some 10)) = Inl Blocked"
    by (simp add: contended_def lock_resume_def pthread_mutex_lock_def)
  moreover have "mutex_owner contended 10 = Some 1" by (simp add: contended_def)
  ultimately show ?thesis using contended_run w by (simp add: numeral_2_eq_2)
qed

text \<open>
  The same order of edges lets two threads wait for each other. Thread 2
  takes lock 10; thread 1 asks for it and is suspended, the assignment edge
  already redirected to thread 1; thread 2 releases, which clears that edge;
  thread 1 now holds the mutex of lock 10 while the graph shows lock 10 as
  free. Thread 2 takes lock 20, thread 1 asks for lock 20 and is suspended,
  and thread 2 asks for lock 10: the check follows the edges of the graph,
  finds no cycle, and thread 2 is suspended as well. Neither wait can return.
\<close>

lemma crossed_release_deadlock:
  "reachable (deadlocked, (\<lambda>_. None)(1 := Some 20, 2 := Some 10)) \<and>
   mutex_owner deadlocked 10 = Some 1 \<and> mutex_owner deadlocked 20 = Some 2 \<and>
   exec (Wake 1) (deadlocked, (\<lambda>_. None)(1 := Some 20, 2 := Some 10)) = Inl Blocked \<and>
   exec (Wake 2) (deadlocked, (\<lambda>_. None)(1 := Some 20, 2 := Some 10)) = Inl Blocked \<and>
   exec (Acquire 1 l) (deadlocked, (\<lambda>_. None)(1 := Some 20, 2 := Some 10)) = Inl Blocked \<and>
   exec (Acquire 2 l) (deadlocked, (\<lambda>_. None)(1 := Some 20, 2 := Some 10)) = Inl Blocked \<and>
   exec (Release 1 l) (deadlocked, (\<lambda>_. None)(1 := Some 20, 2 := Some 10)) = Inl Blocked \<and>
   exec (Release 2 l) (deadlocked, (\<lambda>_. None)(1 := Some 20, 2 := Some 10)) = Inl Blocked \<and>
   has_cycle deadlocked"
proof -
  have "walk deadlocked (Thread 0) (Suc 1) = Some (Thread 0)"
    by (simp add: deadlocked_def)
  then have "has_cycle deadlocked" unfolding has_cycle_def by blast
  moreover have "reachable (deadlocked, (\<lambda>_. None)(1 := Some 20, 2 := Some 10))"
    unfolding reachable_def using deadlocked_run by blast
  ultimately show ?thesis
    by (simp add: deadlocked_def lock_resume_def pthread_mutex_lock_def)
qed

section \<open>What the cycle check does guarantee\<close>

lemma set_request_twice: "set_request i v (set_request i u s) = set_request i v s"
  by (cases "i < length (threads s)") (simp_all add: set_request_def list_update_beyond)

lemma set_request_tid_nth:
  "k < length (threads s) \<Longrightarrow> t_tid (threads (set_request i v s) ! k) = t_tid (threads s ! k)"
  by (cases "k = i") (simp_all add: set_request_def)

lemma ensure_thread_nth:
  "k < length (threads (ensure_thread tid s)) \<Longrightarrow>
     threads (ensure_thread tid s) ! k =
       (if k < length (threads s) then threads s ! k else new_thread tid)"
  by (auto simp: ensure_thread_def nth_append)

lemma ensure_thread_length: "length (threads s) \<le> length (threads (ensure_thread tid s))"
  by (simp add: ensure_thread_def)

lemma requests_waiting_enter:
  assumes rw: "requests_waiting (s, w)" and ok: "state_ok s" and free: "w tid = None"
    and e: "lock_enter tid l s = Inr (r, s')"
  shows "requests_waiting (s', case r of None \<Rightarrow> w(tid := Some l) | Some _ \<Rightarrow> w)"
proof -
  from ok e have inv: "rag_inv s" unfolding state_ok_def by (auto simp: pre_init_lock_enter)
  obtain i where i: "rag_getThread tid (ensure_thread tid s) = Some i"
    using getThread_ensure by blast
  let ?s2 = "ensure_thread tid s"
  have il: "i < length (threads ?s2)" using i by (rule getThread_less)
  have it: "t_tid (threads ?s2 ! i) = tid" using i by (rule getThread_tid)
  from lock_enter_ok[OF ok e] rw have d: "distinct (tids s')"
    by (auto simp: requests_waiting_def)
  have old: "w (t_tid (threads ?s2 ! k)) \<noteq> None"
    if "k < length (threads ?s2)" "t_request (threads ?s2 ! k) \<noteq> None" for k
    using that rw by (auto simp: ensure_thread_nth requests_waiting_def new_thread_def split: if_splits)
  show ?thesis
  proof (cases "check_result tid (set_request i (rag_getResource l s) ?s2)")
    case True
    with e have r: "r = Some 0" and s': "s' = set_request i None ?s2"
      unfolding lock_enter_inv[OF inv i] by (simp_all add: Let_def set_request_twice)
    show ?thesis
      unfolding r s' using d old
      by (auto simp: requests_waiting_def s' set_request_nth set_request_tid_nth split: if_splits)
  next
    case False
    with e obtain j where r: "r = None"
      and s': "s' = set_assignment j (Some i) (set_request i (rag_getResource l s) ?s2)"
      unfolding lock_enter_inv[OF inv i] by (auto simp: Let_def split: option.splits)
    show ?thesis
      unfolding r using d old it
      by (auto simp: requests_waiting_def s' set_request_nth set_request_tid_nth split: if_splits)
  qed
qed

lemma requests_waiting_resume:
  assumes rw: "requests_waiting (s, w)" and ok: "state_ok s"
    and e: "lock_resume tid l s = Inr (r, s')"
  shows "requests_waiting (s', w(tid := None))"
proof -
  from ok e have inv: "rag_inv s" unfolding state_ok_def by (auto simp: pre_init_lock_resume)
  from e obtain i where i: "rag_getThread tid s = Some i"
    and s': "s' = set_request i None (s\<lparr>mutex_owner := (mutex_owner s)(l := Some tid)\<rparr>)"
    unfolding lock_resume_inv[OF inv] by (auto split: option.splits)
  have il: "i < length (threads s)" using i by (rule getThread_less)
  have it: "t_tid (threads s ! i) = tid" using i by (rule getThread_tid)
  from rw have d: "distinct (map t_tid (threads s))" by (simp add: requests_waiting_def tids_def)
  have other: "t_tid (threads s ! k) \<noteq> tid" if "k < length (threads s)" "k \<noteq> i" for k
  proof
    assume "t_tid (threads s ! k) = tid"
    with it have "t_tid (threads s ! k) = t_tid (threads s ! i)" by simp
    with nth_eq_iff_index_eq[OF d, of k i] that(1) il have "k = i" by simp
    with that(2) show False by simp
  qed
  from lock_resume_ok[OF ok e] rw have "distinct (tids s')"
    by (simp add: requests_waiting_def)
  then show ?thesis
    using rw other
    by (auto simp: requests_waiting_def s' set_request_nth set_request_tid_nth split: if_splits)
qed

lemma requests_waiting_exec:
  assumes "requests_waiting c" "state_ok (fst c)" "exec e c = Inr c'"
  shows "requests_waiting c'"
proof -
  obtain s w where c: "c = (s, w)" by (cases c)
  with assms have rw: "requests_waiting (s, w)" and ok: "state_ok s" by simp_all
  show ?thesis
  proof (cases e)
    case (Init l)
    from init_lock_ok[OF ok, of l] obtain s' where s': "init_lock l s = Inr s'" "tids s' = tids s"
      by blast
    have "threads s' = threads s"
      using s'(1) ok unfolding state_ok_def
      by (subst (asm) init_lock_created)
         (auto simp: pre_init_def rag_inv_def sync_idle_def)
    with s' rw assms(3) c Init show ?thesis by (auto simp: requests_waiting_def)
  next
    case (Acquire tid l)
    with assms(3) c obtain r s' where "w tid = None" "lock_enter tid l s = Inr (r, s')"
      "c' = (s', case r of None \<Rightarrow> w(tid := Some l) | Some _ \<Rightarrow> w)"
      by (auto simp: bnd_Inr_iff split: option.splits)
    with requests_waiting_enter[OF rw ok this(1,2)] show ?thesis by simp
  next
    case (Wake tid)
    with assms(3) c obtain l r s' where "lock_resume tid l s = Inr (r, s')" "c' = (s', w(tid := None))"
      by (auto simp: bnd_Inr_iff split: option.splits)
    with requests_waiting_resume[OF rw ok this(1)] show ?thesis by simp
  next
    case (Release tid l)
    with assms(3) c obtain s' where u: "unlock l s = Inr s'" "c' = (s', w)"
      by (auto simp: bnd_Inr_iff split: option.splits)
    from ok u(1) have inv: "rag_inv s" unfolding state_ok_def by (auto simp: pre_init_unlock)
    from u(1) have "threads s' = threads s"
      unfolding unlock_inv[OF inv] by (auto simp: pthread_mutex_unlock_def split: option.splits)
    with rw u(2) show ?thesis by (simp add: requests_waiting_def tids_def)
  qed
qed

lemma requests_waiting_run:
  "requests_waiting c \<Longrightarrow> state_ok (fst c) \<Longrightarrow> run es c = Inr c' \<Longrightarrow> requests_waiting c'"
proof (induction es arbitrary: c)
  case Nil
  then show ?case by simp
next
  case (Cons e es)
  from Cons.prems(3) obtain c1 where c1: "exec e c = Inr c1" "run es c1 = Inr c'"
    by (auto simp: bnd_Inr_iff)
  from exec_ok[OF Cons.prems(2) c1(1)] have "state_ok (fst c1)" by (simp add: state_ok_def)
  moreover have "requests_waiting c1" using Cons.prems(1,2) c1(1) by (rule requests_waiting_exec)
  ultimately show ?case using c1(2) Cons.IH by blast
qed

lemma reachable_requests_waiting: "reachable c \<Longrightarrow> requests_waiting c"
proof -
  assume "reachable c"
  then obtain es where "run es start = Inr c" unfolding reachable_def by blast
  moreover have "requests_waiting start"
    by (simp add: requests_waiting_def start_def initial_def tids_def)
  moreover have "state_ok (fst start)" by (simp add: start_def state_ok_initial)
  ultimately show ?thesis using requests_waiting_run by blast
qed

lemma no_requests_no_cycle:
  assumes "\<forall>k < length (threads s). t_request (threads s ! k) = None"
  shows "\<not> has_cycle s"
proof
  assume "has_cycle s"
  then obtain x k where w: "walk s x (Suc k) = Some x" unfolding has_cycle_def by blast
  have t: "out_edge s (Thread i) = None" for i using assms by simp
  show False
  proof (cases x)
    case (Thread i)
    with w t[of i] show False by simp
  next
    case (Resource j)
    with w obtain y where y: "out_edge s (Resource j) = Some y" "walk s y k = Some (Resource j)"
      by (auto split: option.splits)
    from y(1) obtain i where "y = Thread i" by (auto split: if_splits)
    with y(2) t[of i] show False by (cases k) simp_all
  qed
qed

text \<open>
  In a reachable configuration in which no thread is suspended inside \<open>lock\<close>
  no thread has a request edge, and the graph has no cycle.
\<close>

lemma quiescent_no_cycle:
  assumes "reachable (s, w)" and "\<forall>tid. w tid = None"
  shows "\<not> has_cycle s"
proof -
  from reachable_requests_waiting[OF assms(1)] assms(2)
  have "\<forall>k < length (threads s). t_request (threads s ! k) = None"
    by (auto simp: requests_waiting_def)
  then show ?thesis by (rule no_requests_no_cycle)
qed

end
